theory Spec2Isabelle
  imports Main "HOL-Library.Word" "HOL-Library.Monad_Syntax"
begin

unbundle bit_operations_syntax

section \<open>Bitboard move generation (game\_piece\_moves.cpp)\<close>

text \<open>
  The generators of \<^verbatim>\<open>src/game_piece_moves.cpp\<close> are member functions of
  \<^verbatim>\<open>game\<close>; they read the two colour occupancy masks and the en-passant
  target of the game and return a destination bitboard.  The model passes the game as
  an explicit argument.  A result is an \<open>option\<close>: \<open>None\<close> stands for a call with
  no defined result (a bit operation on a square outside \<open>0..63\<close>, or a loop that
  does not terminate).
\<close>

subsection \<open>Data model\<close>

text \<open>
  Modelled from the spec: the headers \<^verbatim>\<open>game.h\<close> and \<^verbatim>\<open>movement.h\<close>, which declare
  the types, are not part of the sources.  A bitboard is a 64-bit unsigned mask.  A
  square is an integer index in \<open>[0,64)\<close> and an offset step a signed integer delta added
  to it; the source writes offsets such as \<^verbatim>\<open>2 * up + left\<close> as squares and builds
  \<^verbatim>\<open>square{8 * i + j}\<close> from \<^verbatim>\<open>int\<close> operands.  Every value the generators compute
  lies within \<open>-17..72\<close>, so \<open>int\<close> is exact.
\<close>

type_synonym bitboard = "64 word"

type_synonym square = int

text \<open>
  Modelled from the spec: the colour is a two-valued tag, the board occupancy is one
  bitboard per colour (\<^verbatim>\<open>board.white\<close>, \<^verbatim>\<open>board.black\<close>), and the en-passant target
  is a single optional square that is only compared for equality.
\<close>

datatype color = White | Black

record board_state =
  white :: bitboard
  black :: bitboard

record game =
  board :: board_state
  en_passant :: "square option"

subsection \<open>Primitives of movement.h\<close>

text \<open>
  Modelled from the spec: \<^verbatim>\<open>get_row\<close> and \<^verbatim>\<open>get_col\<close> are declared in the missing
  header.  The spec gives \<open>row(s) = s / 8\<close> and \<open>col(s) = s % 8\<close>; the C++ operators
  truncate towards zero, which is written out here (the generators only apply them to
  squares that are not negative).
\<close>

definition get_row :: "square \<Rightarrow> int" where
  "get_row s = sgn s * (\<bar>s\<bar> div 8)"

definition get_col :: "square \<Rightarrow> int" where
  "get_col s = sgn s * (\<bar>s\<bar> mod 8)"

text \<open>
  Modelled from the spec: \<^verbatim>\<open>test_bit\<close> and \<^verbatim>\<open>set_bit\<close> are declared in the missing
  header.  Bit \<open>i\<close> of a bitboard is set iff square \<open>i\<close> is selected; \<open>test(mask, s)\<close>
  reads bit \<open>s\<close> and \<open>set(mask, s)\<close> sets it.  The behaviour for a square outside
  \<open>[0,64)\<close> is undefined: that is the result \<open>None\<close>.  The C++ \<^verbatim>\<open>set_bit\<close> updates its
  first argument in place; the model returns the new mask.
\<close>

definition is_square :: "square \<Rightarrow> bool" where
  "is_square s = (0 \<le> s \<and> s < 64)"

definition test_bit :: "bitboard \<Rightarrow> square \<Rightarrow> bool option" where
  "test_bit b s = (if is_square s then Some (bit b (nat s)) else None)"

definition set_bit_sq :: "bitboard \<Rightarrow> square \<Rightarrow> bitboard option" where
  "set_bit_sq b s = (if is_square s then Some (b OR push_bit (nat s) 1) else None)"

text \<open>
  Modelled from the spec: the direction offsets and \<^verbatim>\<open>get_pawn_direction\<close> are declared
  in the missing header.  Squares are numbered row by row, \<open>up\<close> is towards decreasing
  row index and \<open>left\<close> towards decreasing column index (the source takes column 0 as
  the edge for \<^verbatim>\<open>left\<close>).  White pawns advance \<open>up\<close> from row 6, black pawns \<open>down\<close>
  from row 1.
\<close>

definition up :: square where "up = - 8"
definition down :: square where "down = 8"
definition left :: square where "left = - 1"
definition right :: square where "right = 1"

definition get_pawn_direction :: "color \<Rightarrow> square" where
  "get_pawn_direction c = (if c = White then up else down)"

subsection \<open>Loops\<close>

text \<open>
  \<^verbatim>\<open>for (square s = 0; s < 64; s++)\<close> visits the squares \<open>0, 1, ..., 63\<close> in order;
  a range-for visits the elements of its container in order.  Both are \<open>for_each\<close>
  over a list, threading the value the body updates and stopping at the first
  undefined step.
\<close>

definition squares :: "square list" where
  "squares = [0..63]"

fun for_each :: "'a list \<Rightarrow> ('a \<Rightarrow> 's \<Rightarrow> 's option) \<Rightarrow> 's \<Rightarrow> 's option" where
  "for_each [] f m = Some m"
| "for_each (x # xs) f m = (case f x m of None \<Rightarrow> None | Some m' \<Rightarrow> for_each xs f m')"

subsection \<open>Offset tables\<close>

definition is_valid_dimension :: "int \<Rightarrow> bool" where
  "is_valid_dimension i = (0 \<le> i \<and> i < 8)"

definition get_offset_components :: "square \<Rightarrow> int \<times> int" where
  "get_offset_components off =
     (let x = 36; y = x + off in (get_row y - get_row x, get_col y - get_col x))"

text \<open>
  \<^verbatim>\<open>make_jump_table\<close>: the array of 64 bitboards starts zeroed; for every square
  and every offset the destination bit is set in the entry of that square unless the
  destination row or column is off the board.
\<close>

definition jump_step :: "square \<Rightarrow> square \<Rightarrow> bitboard list \<Rightarrow> bitboard list option" where
  "jump_step s x moves =
     (let r = get_row s; c = get_col s;
          (dr, dc) = get_offset_components x;
          i = r + dr; j = c + dc
      in if \<not> is_valid_dimension i \<or> \<not> is_valid_dimension j then Some moves
         else do {
           e \<leftarrow> set_bit_sq (moves ! nat s) (8 * i + j);
           Some (moves[nat s := e])
         })"

definition make_jump_table :: "square list \<Rightarrow> bitboard list option" where
  "make_jump_table offsets =
     for_each squares (\<lambda>s. for_each offsets (jump_step s)) (replicate 64 0)"

subsection \<open>Pawns\<close>

text \<open>
  The lambda \<^verbatim>\<open>add_capture\<close> of \<^verbatim>\<open>get_pawn_moves\<close>; what it captures by reference
  (\<^verbatim>\<open>vacant\<close>, \<^verbatim>\<open>s\<close>, \<^verbatim>\<open>pawn_dir\<close>, \<^verbatim>\<open>col\<close>, \<^verbatim>\<open>moves\<close>, the game's
  en-passant target) is passed in.
\<close>

definition add_capture ::
  "game \<Rightarrow> bitboard \<Rightarrow> square \<Rightarrow> square \<Rightarrow> int \<Rightarrow> square \<Rightarrow> bitboard \<Rightarrow> bitboard option" where
  "add_capture g vacant s pawn_dir col dir moves =
     (let edge = (if dir = left then 0 else 7)
      in if col = edge then Some moves
         else let sq = s + pawn_dir + dir
              in do {
                v \<leftarrow> test_bit vacant sq;
                if \<not> v \<or> Some sq = en_passant g then set_bit_sq moves sq else Some moves
              })"

text \<open>The push part of the loop body: single push, then the double push from the start row.\<close>

definition pawn_push ::
  "bitboard \<Rightarrow> square \<Rightarrow> square \<Rightarrow> int \<Rightarrow> int \<Rightarrow> bitboard \<Rightarrow> bitboard option" where
  "pawn_push vacant s pawn_dir row start_row moves =
     (let t = s + pawn_dir
      in do {
        v \<leftarrow> test_bit vacant t;
        if v then do {
          moves1 \<leftarrow> set_bit_sq moves t;
          if row = start_row then
            (let t2 = t + pawn_dir
             in do {
               v2 \<leftarrow> test_bit vacant t2;
               if v2 then set_bit_sq moves1 t2 else Some moves1
             })
          else Some moves1
        }
        else Some moves
      })"

text \<open>
  The loop body of \<^verbatim>\<open>get_pawn_moves\<close> for the square \<open>s\<close>: nothing for a square the
  source mask does not select, otherwise the pushes and the two captures.
\<close>

definition pawn_step :: "game \<Rightarrow> bitboard \<Rightarrow> color \<Rightarrow> square \<Rightarrow> bitboard \<Rightarrow> bitboard option" where
  "pawn_step g b c s moves =
     (let pawn_dir = get_pawn_direction c;
          start_row = (if c = White then 6 else 1);
          vacant = NOT (black (board g) OR white (board g))
      in do {
        sel \<leftarrow> test_bit b s;
        if \<not> sel then Some moves
        else
          (let row = get_row s; col = get_col s
           in do {
             moves1 \<leftarrow> pawn_push vacant s pawn_dir row start_row moves;
             moves2 \<leftarrow> add_capture g vacant s pawn_dir col left moves1;
             add_capture g vacant s pawn_dir col right moves2
           })
      })"

definition get_pawn_moves :: "game \<Rightarrow> bitboard \<Rightarrow> color \<Rightarrow> bitboard option" where
  "get_pawn_moves g b c = for_each squares (pawn_step g b c) 0"

text \<open>
  The loop body shared by the three table generators:
  \<^verbatim>\<open>if (test_bit(b, s)) moves |= table[s];\<close>
  Each generator builds its table once (\<^verbatim>\<open>const static\<close>) from a fixed list of
  offsets; the table is a value of that list alone, so the model computes it in place.
\<close>

definition lookup_step :: "bitboard list \<Rightarrow> bitboard \<Rightarrow> square \<Rightarrow> bitboard \<Rightarrow> bitboard option" where
  "lookup_step table b s moves =
     do {
       sel \<leftarrow> test_bit b s;
       Some (if sel then moves OR table ! nat s else moves)
     }"

definition get_pawn_attacks :: "game \<Rightarrow> bitboard \<Rightarrow> color \<Rightarrow> bitboard option" where
  "get_pawn_attacks g b c =
     do {
       pawn_attacks \<leftarrow> make_jump_table [left, right];
       let b' = (if c = White then push_bit 8 b else drop_bit 8 b);
       for_each squares (lookup_step pawn_attacks b') 0
     }"

subsection \<open>Short range pieces\<close>

definition get_knight_moves :: "game \<Rightarrow> bitboard \<Rightarrow> bitboard option" where
  "get_knight_moves g b =
     do {
       knight_moves \<leftarrow> make_jump_table
         [2 * up + left, 2 * up + right, 2 * down + left, 2 * down + right,
          up + 2 * left, down + 2 * left, up + 2 * right, down + 2 * right];
       for_each squares (lookup_step knight_moves b) 0
     }"

definition get_king_moves :: "game \<Rightarrow> bitboard \<Rightarrow> bitboard option" where
  "get_king_moves g b =
     do {
       king_moves \<leftarrow> make_jump_table
         [up, down, left, right, up + left, up + right, down + left, down + right];
       for_each squares (lookup_step king_moves b) 0
     }"

subsection \<open>Sliding pieces\<close>

text \<open>
  The \<^verbatim>\<open>while\<close> loop of \<^verbatim>\<open>get_bishop_moves\<close> and \<^verbatim>\<open>get_rook_moves\<close> (the two
  bodies are the same up to the local name \<^verbatim>\<open>sq\<close>): mark the square, stop at an
  occupant, otherwise step on.  For a step \<open>(0, 0)\<close> on a vacant square the loop
  would not end, so the function is partial.
\<close>

partial_function (option) slide ::
  "bitboard \<Rightarrow> int \<Rightarrow> int \<Rightarrow> int \<Rightarrow> int \<Rightarrow> bitboard \<Rightarrow> bitboard option" where
  "slide occupied dr dc i j moves =
     (if is_valid_dimension i \<and> is_valid_dimension j then
        do {
          moves' \<leftarrow> set_bit_sq moves (8 * i + j);
          occ \<leftarrow> test_bit occupied (8 * i + j);
          if occ then Some moves' else slide occupied dr dc (i + dr) (j + dc) moves'
        }
      else Some moves)"

declare slide.simps [code]

text \<open>
  The loop body of the two sliding generators for the square \<open>s\<close>: for a selected
  square, one walk per direction, each starting on the neighbour of \<open>s\<close>.
\<close>

definition slide_step ::
  "bitboard \<Rightarrow> (int \<times> int) list \<Rightarrow> bitboard \<Rightarrow> square \<Rightarrow> bitboard \<Rightarrow> bitboard option" where
  "slide_step occupied dirs b s moves =
     do {
       sel \<leftarrow> test_bit b s;
       if \<not> sel then Some moves
       else
         (let r = get_row s; c = get_col s
          in for_each dirs (\<lambda>(dr, dc). slide occupied dr dc (r + dr) (c + dc)) moves)
     }"

text \<open>The \<^verbatim>\<open>constexpr\<close> direction arrays \<^verbatim>\<open>dirs\<close> of the two functions.\<close>

definition bishop_dirs :: "(int \<times> int) list" where
  "bishop_dirs = [(1, 1), (1, - 1), (- 1, 1), (- 1, - 1)]"

definition rook_dirs :: "(int \<times> int) list" where
  "rook_dirs = [(1, 0), (- 1, 0), (0, 1), (0, - 1)]"

definition get_bishop_moves :: "game \<Rightarrow> bitboard \<Rightarrow> bitboard option" where
  "get_bishop_moves g b =
     (let dirs = bishop_dirs;
          occupied = black (board g) OR white (board g)
      in for_each squares (slide_step occupied dirs b) 0)"

definition get_rook_moves :: "game \<Rightarrow> bitboard \<Rightarrow> bitboard option" where
  "get_rook_moves g b =
     (let dirs = rook_dirs;
          occupied = black (board g) OR white (board g)
      in for_each squares (slide_step occupied dirs b) 0)"

definition get_queen_moves :: "game \<Rightarrow> bitboard \<Rightarrow> bitboard option" where
  "get_queen_moves g b =
     do {
       bm \<leftarrow> get_bishop_moves g b;
       rm \<leftarrow> get_rook_moves g b;
       Some (bm OR rm)
     }"

subsection \<open>Pawn attacks with the bit numbering as a parameter\<close>

text \<open>
  Modelled from the spec: which bit of a bitboard stands for which square is fixed by
  \<^verbatim>\<open>test_bit\<close> and \<^verbatim>\<open>set_bit\<close> in the missing header, and the spec describes it twice.
  Section 3 says that bit \<open>i\<close> is square \<open>i\<close>, which is the numbering of \<open>test_bit\<close> and
  \<open>set_bit_sq\<close> above.  Section 4.4, like the comment \<^verbatim>\<open>b <<= 8;  // shift all bits up\<close>
  in the source, says that the left shift by 8 moves every pawn one row up, towards the
  lower square indices.  With the bits counted from the low end the two do not agree,
  so \<^verbatim>\<open>get_pawn_attacks\<close> is embedded a second time, with the numbering \<open>pos\<close> (the
  bit position of a square) as a parameter; the bodies are those of \<open>jump_step\<close>,
  \<open>make_jump_table\<close>, \<open>lookup_step\<close> and \<open>get_pawn_attacks\<close>, and for \<open>pos = nat\<close> they
  are the same functions.
\<close>

definition test_bit_at :: "(square \<Rightarrow> nat) \<Rightarrow> bitboard \<Rightarrow> square \<Rightarrow> bool option" where
  "test_bit_at pos b s = (if is_square s then Some (bit b (pos s)) else None)"

definition set_bit_at :: "(square \<Rightarrow> nat) \<Rightarrow> bitboard \<Rightarrow> square \<Rightarrow> bitboard option" where
  "set_bit_at pos b s = (if is_square s then Some (b OR push_bit (pos s) 1) else None)"

definition jump_step_at ::
  "(square \<Rightarrow> nat) \<Rightarrow> square \<Rightarrow> square \<Rightarrow> bitboard list \<Rightarrow> bitboard list option" where
  "jump_step_at pos s x moves =
     (let r = get_row s; c = get_col s;
          (dr, dc) = get_offset_components x;
          i = r + dr; j = c + dc
      in if \<not> is_valid_dimension i \<or> \<not> is_valid_dimension j then Some moves
         else do {
           e \<leftarrow> set_bit_at pos (moves ! nat s) (8 * i + j);
           Some (moves[nat s := e])
         })"

definition make_jump_table_at :: "(square \<Rightarrow> nat) \<Rightarrow> square list \<Rightarrow> bitboard list option" where
  "make_jump_table_at pos offsets =
     for_each squares (\<lambda>s. for_each offsets (jump_step_at pos s)) (replicate 64 0)"

definition lookup_step_at ::
  "(square \<Rightarrow> nat) \<Rightarrow> bitboard list \<Rightarrow> bitboard \<Rightarrow> square \<Rightarrow> bitboard \<Rightarrow> bitboard option" where
  "lookup_step_at pos table b s moves =
     do {
       sel \<leftarrow> test_bit_at pos b s;
       Some (if sel then moves OR table ! nat s else moves)
     }"

definition get_pawn_attacks_at ::
  "(square \<Rightarrow> nat) \<Rightarrow> game \<Rightarrow> bitboard \<Rightarrow> color \<Rightarrow> bitboard option" where
  "get_pawn_attacks_at pos g b c =
     do {
       pawn_attacks \<leftarrow> make_jump_table_at pos [left, right];
       let b' = (if c = White then push_bit 8 b else drop_bit 8 b);
       for_each squares (lookup_step_at pos pawn_attacks b') 0
     }"


subsection \<open>Notions used to state the properties\<close>

text \<open>
  A source mask is admissible for \<^verbatim>\<open>get_pawn_moves\<close> when every selected pawn has a
  square in front of it, that is, no pawn stands on the last row of its colour.
\<close>

definition pawns_can_advance :: "color \<Rightarrow> bitboard \<Rightarrow> bool" where
  "pawns_can_advance c b =
     (\<forall>s\<in>set squares. bit b (nat s) \<longrightarrow> is_square (s + get_pawn_direction c))"

text \<open>
  The destinations of a single pawn on square \<open>s\<close>, rule by rule: the pushes, and
  the capture towards \<open>dir\<close>.  They are shown below to be exactly the bits the loop
  body of \<^verbatim>\<open>get_pawn_moves\<close> adds for \<open>s\<close>.
\<close>

definition push_target :: "bitboard \<Rightarrow> square \<Rightarrow> square \<Rightarrow> int \<Rightarrow> int \<Rightarrow> nat \<Rightarrow> bool" where
  "push_target vacant s pawn_dir row start_row n =
     (bit vacant (nat (s + pawn_dir)) \<and>
      (n = nat (s + pawn_dir) \<or>
       (row = start_row \<and> bit vacant (nat (s + pawn_dir + pawn_dir)) \<and>
        n = nat (s + pawn_dir + pawn_dir))))"

definition capture_target ::
  "game \<Rightarrow> bitboard \<Rightarrow> square \<Rightarrow> square \<Rightarrow> int \<Rightarrow> square \<Rightarrow> nat \<Rightarrow> bool" where
  "capture_target g vacant s pawn_dir col dir n =
     (col \<noteq> (if dir = left then 0 else 7) \<and> n = nat (s + pawn_dir + dir) \<and>
      (\<not> bit vacant (nat (s + pawn_dir + dir)) \<or> en_passant g = Some (s + pawn_dir + dir)))"

definition pawn_target :: "game \<Rightarrow> color \<Rightarrow> square \<Rightarrow> nat \<Rightarrow> bool" where
  "pawn_target g c s n =
     (let pawn_dir = get_pawn_direction c;
          start_row = (if c = White then 6 else 1);
          vacant = NOT (black (board g) OR white (board g))
      in push_target vacant s pawn_dir (get_row s) start_row n \<or>
         capture_target g vacant s pawn_dir (get_col s) left n \<or>
         capture_target g vacant s pawn_dir (get_col s) right n)"

text \<open>The mask \<open>m\<close> with the bit of square \<open>s\<close> set.\<close>

definition with_bit :: "bitboard \<Rightarrow> square \<Rightarrow> bitboard" where
  "with_bit m s = m OR push_bit (nat s) 1"

text \<open>The row step of a pawn of colour \<open>c\<close>: white moves towards row 0.\<close>

definition forward_row :: "color \<Rightarrow> int" where
  "forward_row c = (if c = White then - 1 else 1)"

text \<open>
  Square \<open>q\<close> is ahead of \<open>s\<close> for colour \<open>c\<close> when it is a square of the board that
  lies one or two rows ahead on the same column, or one row ahead on an adjacent column.
\<close>

definition ahead_of :: "color \<Rightarrow> square \<Rightarrow> square \<Rightarrow> bool" where
  "ahead_of c s q =
     (let fwd = forward_row c
      in is_square q \<and>
         (get_col q = get_col s \<and>
            (get_row q = get_row s + fwd \<or> get_row q = get_row s + 2 * fwd)
          \<or> get_row q = get_row s + fwd \<and>
            (get_col q = get_col s - 1 \<or> get_col q = get_col s + 1)))"

text \<open>
  \<open>reach occupied dr dc i j k\<close>: the walk that starts on row \<open>i\<close>, column \<open>j\<close> and
  steps by \<open>(dr, dc)\<close> gets as far as its \<open>k\<close>-th square (the start is the 0-th): all
  the squares up to the \<open>k\<close>-th are on the board and none before the \<open>k\<close>-th is
  occupied.
\<close>

primrec reach :: "bitboard \<Rightarrow> int \<Rightarrow> int \<Rightarrow> int \<Rightarrow> int \<Rightarrow> nat \<Rightarrow> bool" where
  "reach occupied dr dc i j 0 = (is_valid_dimension i \<and> is_valid_dimension j)"
| "reach occupied dr dc i j (Suc k) =
     (is_valid_dimension i \<and> is_valid_dimension j \<and> \<not> bit occupied (nat (8 * i + j)) \<and>
      reach occupied dr dc (i + dr) (j + dc) k)"

text \<open>
  Square number \<open>n\<close> is a destination of the sliding piece on \<open>s\<close>: one of the
  directions reaches it, walking from the neighbour of \<open>s\<close> in that direction.
\<close>

definition slide_target :: "bitboard \<Rightarrow> (int \<times> int) list \<Rightarrow> square \<Rightarrow> nat \<Rightarrow> bool" where
  "slide_target occupied dirs s n =
     (\<exists>(dr, dc)\<in>set dirs. \<exists>k.
        reach occupied dr dc (get_row s + dr) (get_col s + dc) k \<and>
        n = nat (8 * (get_row s + dr + int k * dr) + (get_col s + dc + int k * dc)))"



text \<open>
  An upper bound on the number of squares a walk can still visit; it serves as the
  measure in the proof that the walks end.
\<close>

definition steps_left :: "int \<Rightarrow> int \<Rightarrow> int \<Rightarrow> int \<Rightarrow> nat" where
  "steps_left dr dc i j =
     (if 0 < dr then nat (8 - i) else if dr < 0 then nat (i + 1)
      else if 0 < dc then nat (8 - j) else nat (j + 1))"

section \<open>Properties\<close>

subsection \<open>Primitives and loops\<close>

lemma squares_iff: "s \<in> set squares \<longleftrightarrow> is_square s"
  by (auto simp: squares_def is_square_def)

lemma test_bit_square: "is_square s \<Longrightarrow> test_bit b s = Some (bit b (nat s))"
  by (simp add: test_bit_def)

lemma set_bit_square: "is_square s \<Longrightarrow> set_bit_sq b s = Some (b OR push_bit (nat s) 1)"
  by (simp add: set_bit_sq_def)

lemma bit_set_bit_sq:
  "is_square s \<Longrightarrow> bit (b OR push_bit (nat s) (1::bitboard)) n \<longleftrightarrow> bit b n \<or> n = nat s"
  by (auto simp: bit_or_iff bit_push_bit_iff bit_1_iff is_square_def bit_exp_iff)

lemma get_row_nonneg: "0 \<le> s \<Longrightarrow> get_row s = s div 8"
  by (cases "s = 0") (simp_all add: get_row_def)

lemma get_col_nonneg: "0 \<le> s \<Longrightarrow> get_col s = s mod 8"
  by (cases "s = 0") (simp_all add: get_col_def)

lemma square_of_valid:
  "is_valid_dimension i \<Longrightarrow> is_valid_dimension j \<Longrightarrow> is_square (8 * i + j)"
  by (simp add: is_valid_dimension_def is_square_def)

lemma for_each_bits:
  assumes "\<And>x m. x \<in> set xs \<Longrightarrow> \<exists>m'. f x m = Some m' \<and> (\<forall>n. bit m' n \<longleftrightarrow> bit m n \<or> C x n)"
  shows "\<exists>m'. for_each xs f (m::bitboard) = Some m' \<and> (\<forall>n. bit m' n \<longleftrightarrow> bit m n \<or> (\<exists>x\<in>set xs. C x n))"
  using assms
proof (induction xs arbitrary: m)
  case Nil
  then show ?case by simp
next
  case (Cons x xs)
  have "\<exists>m'. f x m = Some m' \<and> (\<forall>n. bit m' n \<longleftrightarrow> bit m n \<or> C x n)"
    by (rule Cons.prems) simp
  then obtain m1 where
    m1: "f x m = Some m1" and b1: "\<And>n. bit m1 n \<longleftrightarrow> bit m n \<or> C x n" by blast
  have "\<exists>m'. for_each xs f m1 = Some m' \<and> (\<forall>n. bit m' n \<longleftrightarrow> bit m1 n \<or> (\<exists>x\<in>set xs. C x n))"
    by (rule Cons.IH) (rule Cons.prems, simp)
  then obtain m2 where
    m2: "for_each xs f m1 = Some m2" and b2: "\<And>n. bit m2 n \<longleftrightarrow> bit m1 n \<or> (\<exists>x\<in>set xs. C x n)"
    by blast
  have "for_each (x # xs) f m = Some m2" using m1 m2 by simp
  moreover have "bit m2 n \<longleftrightarrow> bit m n \<or> (\<exists>y\<in>set (x # xs). C y n)" for n
    by (simp add: b1 b2 disj_assoc)
  ultimately show ?case by blast
qed

lemma for_each_inv:
  assumes "\<And>x m. x \<in> set xs \<Longrightarrow> P m \<Longrightarrow> \<exists>m'. f x m = Some m' \<and> P m'" and "P m"
  shows "\<exists>m'. for_each xs f m = Some m' \<and> P m'"
  using assms
proof (induction xs arbitrary: m)
  case Nil
  then show ?case by simp
next
  case (Cons x xs)
  from Cons.prems(1) [of x m] Cons.prems(2) obtain m1 where
    m1: "f x m = Some m1" "P m1" by auto
  have "\<exists>m'. for_each xs f m1 = Some m' \<and> P m'"
    by (rule Cons.IH) (use Cons.prems(1) m1 in auto)
  then show ?case using m1 by auto
qed

subsection \<open>Offset tables\<close>

lemma jump_step_Some:
  assumes "is_square s"
  shows "\<exists>m'. jump_step s x moves = Some m' \<and> length m' = length moves"
proof -
  obtain dr dc where d: "get_offset_components x = (dr, dc)" by (cases "get_offset_components x")
  show ?thesis
  proof (cases "is_valid_dimension (get_row s + dr) \<and> is_valid_dimension (get_col s + dc)")
    case True
    then have "is_square (8 * (get_row s + dr) + (get_col s + dc))"
      by (intro square_of_valid) simp_all
    then show ?thesis using True d
      by (simp add: jump_step_def set_bit_square)
  next
    case False
    then show ?thesis using d by (auto simp: jump_step_def)
  qed
qed

lemma jump_row_Some:
  assumes "s \<in> set squares" and "length m = 64"
  shows "\<exists>m'. for_each offsets (jump_step s) m = Some m' \<and> length m' = 64"
proof (rule for_each_inv [of offsets "\<lambda>m. length m = 64" "jump_step s" m])
  fix x and m :: "bitboard list"
  assume "length m = 64"
  then show "\<exists>m'. jump_step s x m = Some m' \<and> length m' = 64"
    using jump_step_Some [of s x m] assms(1) by (simp add: squares_iff)
qed (rule assms(2))

lemma make_jump_table_Some: "\<exists>T. make_jump_table offsets = Some T \<and> length T = 64"
proof -
  have "\<exists>m'. for_each squares (\<lambda>s. for_each offsets (jump_step s)) (replicate 64 0) = Some m'
          \<and> length m' = 64"
  proof (rule for_each_inv [of squares "\<lambda>m. length m = 64"])
    show "length (replicate 64 (0::bitboard)) = 64" by (rule length_replicate)
  qed (rule jump_row_Some)
  then show ?thesis by (simp add: make_jump_table_def)
qed

lemma lookup_step_bits:
  assumes "s \<in> set squares"
  shows "\<exists>m'. lookup_step T b s m = Some m' \<and>
           (\<forall>n. bit m' n \<longleftrightarrow> bit m n \<or> (bit b (nat s) \<and> bit (T ! nat s) n))"
  using assms by (simp add: lookup_step_def squares_iff test_bit_square bit_or_iff)

lemma lookup_loop_bits:
  "\<exists>m. for_each squares (lookup_step T b) 0 = Some m \<and>
        (\<forall>n. bit m n \<longleftrightarrow> (\<exists>s\<in>set squares. bit b (nat s) \<and> bit (T ! nat s) n))"
  using for_each_bits [of squares "lookup_step T b" "\<lambda>s n. bit b (nat s) \<and> bit (T ! nat s) n" 0]
    lookup_step_bits [of _ T b] by simp

lemma table_gen_bits:
  assumes "make_jump_table offsets = Some T"
  shows "\<exists>m. (make_jump_table offsets \<bind> (\<lambda>t. for_each squares (lookup_step t b) 0)) = Some m \<and>
           (\<forall>n. bit m n \<longleftrightarrow> (\<exists>s\<in>set squares. bit b (nat s) \<and> bit (T ! nat s) n))"
  using lookup_loop_bits [of T b] by (simp add: assms)

lemma union_from_bits:
  fixes x y z :: bitboard
  assumes "\<And>n. bit x n \<longleftrightarrow> (\<exists>s\<in>set squares. bit a (nat s) \<and> C s n)"
    and "\<And>n. bit y n \<longleftrightarrow> (\<exists>s\<in>set squares. bit b (nat s) \<and> C s n)"
    and "\<And>n. bit z n \<longleftrightarrow> (\<exists>s\<in>set squares. bit (a OR b) (nat s) \<and> C s n)"
  shows "z = x OR y"
proof (rule bit_eqI)
  fix n
  show "bit z n \<longleftrightarrow> bit (x OR y) n"
    unfolding bit_or_iff assms by blast
qed

lemma zero_from_bits:
  fixes z :: bitboard
  assumes "\<And>n. bit z n \<longleftrightarrow> (\<exists>s\<in>set squares. bit (0::bitboard) (nat s) \<and> C s n)"
  shows "z = 0"
  by (rule bit_eqI) (simp add: assms)

text \<open>A generator that is total and whose result is the union of per-square contributions.\<close>

lemma homomorphism_from_bits:
  fixes gen :: "bitboard \<Rightarrow> bitboard option"
  assumes "\<And>b. \<exists>m. gen b = Some m \<and> (\<forall>n. bit m n \<longleftrightarrow> (\<exists>s\<in>set squares. bit b (nat s) \<and> C s n))"
  shows "(\<exists>x y. gen a = Some x \<and> gen b = Some y \<and> gen (a OR b) = Some (x OR y)) \<and> gen 0 = Some 0"
proof -
  from assms [of a] obtain x where x: "gen a = Some x"
    and bx: "\<And>n. bit x n \<longleftrightarrow> (\<exists>s\<in>set squares. bit a (nat s) \<and> C s n)" by blast
  from assms [of b] obtain y where y: "gen b = Some y"
    and "by": "\<And>n. bit y n \<longleftrightarrow> (\<exists>s\<in>set squares. bit b (nat s) \<and> C s n)" by blast
  from assms [of "a OR b"] obtain z where z: "gen (a OR b) = Some z"
    and bz: "\<And>n. bit z n \<longleftrightarrow> (\<exists>s\<in>set squares. bit (a OR b) (nat s) \<and> C s n)" by blast
  from assms [of 0] obtain w where w: "gen 0 = Some w"
    and bw: "\<And>n. bit w n \<longleftrightarrow> (\<exists>s\<in>set squares. bit (0::bitboard) (nat s) \<and> C s n)" by blast
  have "z = x OR y" using bx "by" bz by (rule union_from_bits)
  moreover have "w = 0" using bw by (rule zero_from_bits)
  ultimately show ?thesis using x y z w by simp
qed

lemma knight_bits:
  "\<exists>T::bitboard list. \<forall>b. \<exists>m. get_knight_moves g b = Some m \<and>
      (\<forall>n. bit m n \<longleftrightarrow> (\<exists>s\<in>set squares. bit b (nat s) \<and> bit (T ! nat s) n))"
proof -
  obtain T where T: "make_jump_table
         [2 * up + left, 2 * up + right, 2 * down + left, 2 * down + right,
          up + 2 * left, down + 2 * left, up + 2 * right, down + 2 * right] = Some T"
    using make_jump_table_Some by blast
  have "\<forall>b. \<exists>m. get_knight_moves g b = Some m \<and>
      (\<forall>n. bit m n \<longleftrightarrow> (\<exists>s\<in>set squares. bit b (nat s) \<and> bit (T ! nat s) n))"
    unfolding get_knight_moves_def by (rule allI) (rule table_gen_bits [OF T])
  then show ?thesis by (rule exI)
qed

lemma king_bits:
  "\<exists>T::bitboard list. \<forall>b. \<exists>m. get_king_moves g b = Some m \<and>
      (\<forall>n. bit m n \<longleftrightarrow> (\<exists>s\<in>set squares. bit b (nat s) \<and> bit (T ! nat s) n))"
proof -
  obtain T where T: "make_jump_table
         [up, down, left, right, up + left, up + right, down + left, down + right] = Some T"
    using make_jump_table_Some by blast
  have "\<forall>b. \<exists>m. get_king_moves g b = Some m \<and>
      (\<forall>n. bit m n \<longleftrightarrow> (\<exists>s\<in>set squares. bit b (nat s) \<and> bit (T ! nat s) n))"
    unfolding get_king_moves_def by (rule allI) (rule table_gen_bits [OF T])
  then show ?thesis by (rule exI)
qed

lemma pawn_attacks_shifted_bits:
  assumes "make_jump_table [left, right] = Some T"
  shows "\<exists>m. get_pawn_attacks g b c = Some m \<and>
      (\<forall>n. bit m n \<longleftrightarrow> (\<exists>s\<in>set squares.
          bit (if c = White then push_bit 8 b else drop_bit 8 b) (nat s) \<and> bit (T ! nat s) n))"
  using lookup_loop_bits [of T "if c = White then push_bit 8 b else drop_bit 8 b"]
  by (simp add: get_pawn_attacks_def assms)

lemma pawn_attacks_total: "\<exists>m. get_pawn_attacks g b c = Some m"
proof -
  obtain T where "make_jump_table [left, right] = Some T" using make_jump_table_Some by blast
  from pawn_attacks_shifted_bits [OF this, of g b c] show ?thesis by blast
qed

lemma pawn_attacks_zero_mask:
  assumes "(if c = White then push_bit 8 b else drop_bit 8 b) = 0"
  shows "get_pawn_attacks g b c = Some 0"
proof -
  obtain T where T: "make_jump_table [left, right] = Some T" using make_jump_table_Some by blast
  from pawn_attacks_shifted_bits [OF T, of g b c] obtain m where m: "get_pawn_attacks g b c = Some m"
    and bm: "\<And>n. bit m n \<longleftrightarrow> (\<exists>s\<in>set squares.
          bit (if c = White then push_bit 8 b else drop_bit 8 b) (nat s) \<and> bit (T ! nat s) n)"
    by blast
  have "m = 0" by (rule bit_eqI) (simp add: bm assms)
  then show ?thesis using m by simp
qed

lemma pawn_attacks_same_shift:
  assumes "(if c = White then push_bit 8 a else drop_bit 8 a)
         = (if c = White then push_bit 8 b else drop_bit 8 b)"
  shows "get_pawn_attacks g a c = get_pawn_attacks g' b c"
  using assms by (simp add: get_pawn_attacks_def)

subsection \<open>Occupancy independence\<close>

lemma knight_total: "\<exists>m. get_knight_moves g b = Some m"
  using knight_bits [of g] by blast

lemma king_total: "\<exists>m. get_king_moves g b = Some m"
  using king_bits [of g] by blast

lemma pawn_attacks_at_36:
  "get_pawn_attacks g (push_bit 36 1) White = Some (push_bit 43 1 OR push_bit 45 1)"
  by code_simp

text \<open>
  Claim C9.  \<^verbatim>\<open>get_knight_moves\<close>, \<^verbatim>\<open>get_king_moves\<close> and \<^verbatim>\<open>get_pawn_attacks\<close>
  return a bitboard that depends on the source mask (and the colour) only: two games
  with any two board occupancies and en-passant targets give the same result.
\<close>

theorem short_range_ignores_occupancy:
  "(\<exists>m. get_knight_moves g b = Some m \<and> get_knight_moves g' b = Some m)
   \<and> (\<exists>m. get_king_moves g b = Some m \<and> get_king_moves g' b = Some m)
   \<and> (\<exists>m. get_pawn_attacks g b c = Some m \<and> get_pawn_attacks g' b c = Some m)"
proof -
  have "get_knight_moves g' b = get_knight_moves g b"
    by (simp add: get_knight_moves_def)
  moreover have "get_king_moves g' b = get_king_moves g b"
    by (simp add: get_king_moves_def)
  moreover have "get_pawn_attacks g' b c = get_pawn_attacks g b c"
    by (simp add: get_pawn_attacks_def)
  ultimately show ?thesis
    using knight_total [of g b] king_total [of g b] pawn_attacks_total [of g b c] by simp
qed

theorem short_range_ignores_occupancy_witness:
  "get_pawn_attacks \<lparr>board = \<lparr>white = 0, black = 0\<rparr>, en_passant = None\<rparr> (push_bit 36 1) White
     = Some (push_bit 43 1 OR push_bit 45 1)
   \<and> get_pawn_attacks \<lparr>board = \<lparr>white = - 1, black = - 1\<rparr>, en_passant = Some 43\<rparr>
       (push_bit 36 1) White
     = Some (push_bit 43 1 OR push_bit 45 1)"
  using short_range_ignores_occupancy
    [of "\<lparr>board = \<lparr>white = 0, black = 0\<rparr>, en_passant = None\<rparr>" "push_bit 36 1"
        "\<lparr>board = \<lparr>white = - 1, black = - 1\<rparr>, en_passant = Some 43\<rparr>" White]
    pawn_attacks_at_36 [of "\<lparr>board = \<lparr>white = 0, black = 0\<rparr>, en_passant = None\<rparr>"]
  by auto

subsection \<open>Pawn attacks\<close>

text \<open>
  Claim C10.  In \<^verbatim>\<open>get_pawn_attacks\<close> the source squares that the shift moves out of
  the 64 bits contribute nothing: for white, clearing the source squares 56..63 does not
  change the result and a source mask within 56..63 gives the empty bitboard; for black
  the same holds of the squares 0..7.
\<close>

theorem pawn_attacks_shifted_out:
  "(\<exists>m. get_pawn_attacks g b White = Some m \<and>
        get_pawn_attacks g (b AND mask 56) White = Some m)
   \<and> (b AND mask 56 = 0 \<longrightarrow> get_pawn_attacks g b White = Some 0)
   \<and> (\<exists>m. get_pawn_attacks g b Black = Some m \<and>
        get_pawn_attacks g (b AND NOT (mask 8)) Black = Some m)
   \<and> (b AND NOT (mask 8) = 0 \<longrightarrow> get_pawn_attacks g b Black = Some 0)"
proof -
  have up: "push_bit 8 (b AND mask 56) = push_bit 8 b"
    by (rule bit_eqI) (auto simp: bit_push_bit_iff bit_and_iff bit_mask_iff)
  have down: "drop_bit 8 (b AND NOT (mask 8)) = drop_bit 8 b"
    by (rule bit_eqI)
      (auto simp: bit_drop_bit_eq bit_and_iff bit_not_iff bit_mask_iff dest: bit_imp_le_length)
  have w: "get_pawn_attacks g (b AND mask 56) White = get_pawn_attacks g b White"
    by (rule pawn_attacks_same_shift) (use up in simp)
  have k: "get_pawn_attacks g (b AND NOT (mask 8)) Black = get_pawn_attacks g b Black"
    by (rule pawn_attacks_same_shift) (use down in simp)
  have w0: "get_pawn_attacks g b White = Some 0" if "b AND mask 56 = 0"
  proof (rule pawn_attacks_zero_mask)
    from up that show "(if White = White then push_bit 8 b else drop_bit 8 b) = 0"
      by simp
  qed
  have k0: "get_pawn_attacks g b Black = Some 0" if "b AND NOT (mask 8) = 0"
  proof (rule pawn_attacks_zero_mask)
    from down that show "(if Black = White then push_bit 8 b else drop_bit 8 b) = 0"
      by simp
  qed
  from w k w0 k0 pawn_attacks_total [of g b White] pawn_attacks_total [of g b Black]
  show ?thesis by auto
qed

theorem pawn_attacks_shifted_out_witness:
  "get_pawn_attacks \<lparr>board = \<lparr>white = push_bit 60 1, black = push_bit 3 1\<rparr>, en_passant = None\<rparr>
     (push_bit 60 1) White = Some 0
   \<and> get_pawn_attacks \<lparr>board = \<lparr>white = push_bit 60 1, black = push_bit 3 1\<rparr>,
       en_passant = None\<rparr> (push_bit 3 1) Black = Some 0"
proof -
  let ?g = "\<lparr>board = \<lparr>white = push_bit 60 1, black = push_bit 3 1\<rparr>, en_passant = None\<rparr>"
  have "(push_bit 60 1 :: bitboard) AND mask 56 = 0" by (simp add: mask_eq_exp_minus_1)
  moreover have "(push_bit 3 1 :: bitboard) AND NOT (mask 8) = 0"
    by (simp add: mask_eq_exp_minus_1)
  ultimately show ?thesis
    using pawn_attacks_shifted_out [of ?g "push_bit 60 1"]
      pawn_attacks_shifted_out [of ?g "push_bit 3 1"] by simp
qed

text \<open>
  What \<^verbatim>\<open>get_pawn_attacks\<close> computes for every source mask: a white source square
  \<open>s < 56\<close> contributes the table entry of \<open>s + 8\<close>, a black source square \<open>s \<ge> 8\<close>
  the table entry of \<open>s - 8\<close>.
\<close>

lemma pawn_attacks_bits:
  assumes "make_jump_table [left, right] = Some T"
  shows "\<exists>m. get_pawn_attacks g b White = Some m \<and>
           (\<forall>n. bit m n \<longleftrightarrow>
              (\<exists>s\<in>set squares. bit b (nat s) \<and> s < 56 \<and> bit (T ! nat (s + 8)) n))"
    and "\<exists>m. get_pawn_attacks g b Black = Some m \<and>
           (\<forall>n. bit m n \<longleftrightarrow>
              (\<exists>s\<in>set squares. bit b (nat s) \<and> 8 \<le> s \<and> bit (T ! nat (s - 8)) n))"
proof -
  from pawn_attacks_shifted_bits [OF assms, of g b White] obtain m
    where m: "get_pawn_attacks g b White = Some m"
      and bm: "\<And>n. bit m n \<longleftrightarrow>
        (\<exists>s\<in>set squares. bit (push_bit 8 b) (nat s) \<and> bit (T ! nat s) n)"
    by auto
  have "bit m n \<longleftrightarrow> (\<exists>s\<in>set squares. bit b (nat s) \<and> s < 56 \<and> bit (T ! nat (s + 8)) n)"
    for n
  proof
    assume "bit m n"
    then obtain s where s: "s \<in> set squares" "bit (push_bit 8 b) (nat s)" "bit (T ! nat s) n"
      unfolding bm by blast
    from s(1,2) have "s - 8 \<in> set squares" "bit b (nat (s - 8))" "s - 8 < 56"
      by (auto simp: squares_iff is_square_def bit_push_bit_iff nat_diff_distrib)
    moreover have "nat (s - 8 + 8) = nat s" by simp
    ultimately show "\<exists>s\<in>set squares. bit b (nat s) \<and> s < 56 \<and> bit (T ! nat (s + 8)) n"
      using s(3) by metis
  next
    assume "\<exists>s\<in>set squares. bit b (nat s) \<and> s < 56 \<and> bit (T ! nat (s + 8)) n"
    then obtain s where s: "s \<in> set squares" "bit b (nat s)" "s < 56" "bit (T ! nat (s + 8)) n"
      by blast
    from s(1,2,3) have "s + 8 \<in> set squares" "bit (push_bit 8 b) (nat (s + 8))"
      by (auto simp: squares_iff is_square_def bit_push_bit_iff nat_add_distrib)
    with s(4) show "bit m n" unfolding bm by blast
  qed
  with m show "\<exists>m. get_pawn_attacks g b White = Some m \<and>
           (\<forall>n. bit m n \<longleftrightarrow>
              (\<exists>s\<in>set squares. bit b (nat s) \<and> s < 56 \<and> bit (T ! nat (s + 8)) n))"
    by blast
next
  from pawn_attacks_shifted_bits [OF assms, of g b Black] obtain m
    where m: "get_pawn_attacks g b Black = Some m"
      and bm: "\<And>n. bit m n \<longleftrightarrow>
        (\<exists>s\<in>set squares. bit (drop_bit 8 b) (nat s) \<and> bit (T ! nat s) n)"
    by auto
  have "bit m n \<longleftrightarrow> (\<exists>s\<in>set squares. bit b (nat s) \<and> 8 \<le> s \<and> bit (T ! nat (s - 8)) n)"
    for n
  proof
    assume "bit m n"
    then obtain s where s: "s \<in> set squares" "bit (drop_bit 8 b) (nat s)" "bit (T ! nat s) n"
      unfolding bm by blast
    from s(2) have b8: "bit b (nat s + 8)" by (simp add: bit_drop_bit_eq add.commute)
    then have "nat s + 8 < 64" by (auto dest: bit_imp_le_length)
    with s(1) b8 have "s + 8 \<in> set squares" "bit b (nat (s + 8))" "8 \<le> s + 8"
      by (auto simp: squares_iff is_square_def nat_add_distrib)
    moreover have "nat (s + 8 - 8) = nat s" by simp
    ultimately show "\<exists>s\<in>set squares. bit b (nat s) \<and> 8 \<le> s \<and> bit (T ! nat (s - 8)) n"
      using s(3) by metis
  next
    assume "\<exists>s\<in>set squares. bit b (nat s) \<and> 8 \<le> s \<and> bit (T ! nat (s - 8)) n"
    then obtain s where s: "s \<in> set squares" "bit b (nat s)" "8 \<le> s" "bit (T ! nat (s - 8)) n"
      by blast
    from s(1,2,3) have "s - 8 \<in> set squares" "bit (drop_bit 8 b) (nat (s - 8))"
      by (auto simp: squares_iff is_square_def bit_drop_bit_eq nat_diff_distrib)
    with s(4) show "bit m n" unfolding bm by blast
  qed
  with m show "\<exists>m. get_pawn_attacks g b Black = Some m \<and>
           (\<forall>n. bit m n \<longleftrightarrow>
              (\<exists>s\<in>set squares. bit b (nat s) \<and> 8 \<le> s \<and> bit (T ! nat (s - 8)) n))"
    by blast
qed

subsection \<open>Pawn attacks and the bit numbering\<close>

lemma at_nat_same:
  "test_bit_at nat b s = test_bit b s"
  "set_bit_at nat b s = set_bit_sq b s"
  "jump_step_at nat s x ms = jump_step s x ms"
  "make_jump_table_at nat offsets = make_jump_table offsets"
  "lookup_step_at nat T b s m = lookup_step T b s m"
  "get_pawn_attacks_at nat g b c = get_pawn_attacks g b c"
proof -
  show t: "test_bit_at nat b s = test_bit b s" for b s
    by (simp add: test_bit_at_def test_bit_def)
  show u: "set_bit_at nat b s = set_bit_sq b s" for b s
    by (simp add: set_bit_at_def set_bit_sq_def)
  have j: "jump_step_at nat = jump_step"
    by (intro ext) (simp add: jump_step_at_def jump_step_def u cong: if_cong)
  then show "jump_step_at nat s x ms = jump_step s x ms" by simp
  show m: "make_jump_table_at nat offsets = make_jump_table offsets" for offsets
    by (simp add: make_jump_table_at_def make_jump_table_def j)
  have l: "lookup_step_at nat = lookup_step"
    by (intro ext) (simp add: lookup_step_at_def lookup_step_def t)
  then show "lookup_step_at nat T b s m = lookup_step T b s m" by simp
  show "get_pawn_attacks_at nat g b c = get_pawn_attacks g b c"
    by (simp add: get_pawn_attacks_at_def get_pawn_attacks_def m l)
qed












subsection \<open>The loop body of get\_pawn\_moves\<close>

lemma for_each_None:
  assumes "x \<in> set xs" and "\<And>m. f x m = None"
  shows "for_each xs f m = None"
  using assms(1)
proof (induction xs arbitrary: m)
  case Nil
  then show ?case by simp
next
  case (Cons y ys)
  show ?case
  proof (cases "f y m")
    case None
    then show ?thesis by simp
  next
    case (Some m1)
    with assms(2) have "y \<noteq> x" by auto
    with Cons.prems have "x \<in> set ys" by simp
    then have "for_each ys f m1 = None" by (rule Cons.IH)
    with Some show ?thesis by simp
  qed
qed

lemma set_bit_with_bit: "is_square s \<Longrightarrow> set_bit_sq m s = Some (with_bit m s)"
  by (simp add: set_bit_sq_def with_bit_def)

lemma bit_with_bit: "is_square s \<Longrightarrow> bit (with_bit m s) n \<longleftrightarrow> bit m n \<or> n = nat s"
  unfolding with_bit_def by (rule bit_set_bit_sq)

lemma pawn_push_bits:
  assumes "is_square (s + pd)" and "row = start \<Longrightarrow> is_square (s + pd + pd)"
  shows "\<exists>m'. pawn_push vacant s pd row start m = Some m' \<and>
           (\<forall>n. bit m' n \<longleftrightarrow> bit m n \<or> push_target vacant s pd row start n)"
proof (cases "row = start")
  case True
  with assms have sq: "is_square (s + pd)" "is_square (s + pd + pd)" by simp_all
  show ?thesis using True sq
    by (auto simp: pawn_push_def push_target_def Let_def test_bit_square set_bit_with_bit
        bit_with_bit)
next
  case False
  show ?thesis using False assms(1)
    by (auto simp: pawn_push_def push_target_def Let_def test_bit_square set_bit_with_bit
        bit_with_bit)
qed

lemma add_capture_bits:
  assumes "col \<noteq> (if dir = left then 0 else 7) \<Longrightarrow> is_square (s + pd + dir)"
  shows "\<exists>m'. add_capture g vacant s pd col dir m = Some m' \<and>
           (\<forall>n. bit m' n \<longleftrightarrow> bit m n \<or> capture_target g vacant s pd col dir n)"
proof (cases "col = (if dir = left then 0 else 7)")
  case True
  then show ?thesis by (simp add: add_capture_def capture_target_def)
next
  case False
  with assms have sq: "is_square (s + pd + dir)" by simp
  show ?thesis using False sq
    by (auto simp: add_capture_def capture_target_def Let_def test_bit_square set_bit_with_bit
        bit_with_bit)
qed

lemma double_push_in_range:
  assumes "is_square s" and "get_row s = (if c = White then 6 else 1)"
  shows "is_square (s + get_pawn_direction c + get_pawn_direction c)"
  using assms
  by (cases c) (auto simp: is_square_def get_row_nonneg get_pawn_direction_def up_def down_def)

lemma capture_in_range:
  assumes "is_square s" and "is_square (s + get_pawn_direction c)"
    and "get_col s \<noteq> (if dir = left then 0 else 7)" and "dir = left \<or> dir = right"
  shows "is_square (s + get_pawn_direction c + dir)"
proof -
  have "get_col (s + get_pawn_direction c) = get_col s"
    using assms(1,2)
    by (cases c) (auto simp: is_square_def get_col_nonneg get_pawn_direction_def up_def down_def)
  moreover have "get_col (s + get_pawn_direction c) = (s + get_pawn_direction c) mod 8"
    using assms(2) by (simp add: is_square_def get_col_nonneg)
  ultimately have "(s + get_pawn_direction c) mod 8 \<noteq> (if dir = left then 0 else 7)"
    using assms(3) by simp
  then show ?thesis
    using assms(2,4) unfolding is_square_def left_def right_def by presburger
qed

lemma pawn_step_bits:
  assumes "is_square s" and "bit b (nat s) \<Longrightarrow> is_square (s + get_pawn_direction c)"
  shows "\<exists>m'. pawn_step g b c s m = Some m' \<and>
           (\<forall>n. bit m' n \<longleftrightarrow> bit m n \<or> (bit b (nat s) \<and> pawn_target g c s n))"
proof (cases "bit b (nat s)")
  case False
  then show ?thesis using assms(1) by (simp add: pawn_step_def test_bit_square)
next
  case True
  define pd where "pd = get_pawn_direction c"
  define start where "start = (if c = White then 6 else 1::int)"
  define vacant where "vacant = NOT (black (board g) OR white (board g))"
  have t: "is_square (s + pd)" using assms(2) True by (simp add: pd_def)
  have "get_row s = start \<Longrightarrow> is_square (s + pd + pd)"
    unfolding pd_def start_def by (rule double_push_in_range [OF assms(1)])
  with t obtain m1 where m1: "pawn_push vacant s pd (get_row s) start m = Some m1"
    and b1: "\<And>n. bit m1 n \<longleftrightarrow> bit m n \<or> push_target vacant s pd (get_row s) start n"
    using pawn_push_bits [of s pd "get_row s" start vacant m] by blast
  have "get_col s \<noteq> (if left = left then 0 else 7) \<Longrightarrow> is_square (s + pd + left)"
    using capture_in_range [OF assms(1), of c left] t by (simp add: pd_def)
  then obtain m2 where m2: "add_capture g vacant s pd (get_col s) left m1 = Some m2"
    and b2: "\<And>n. bit m2 n \<longleftrightarrow> bit m1 n \<or> capture_target g vacant s pd (get_col s) left n"
    using add_capture_bits [of "get_col s" left s pd g vacant m1] by blast
  have "get_col s \<noteq> (if right = left then 0 else 7) \<Longrightarrow> is_square (s + pd + right)"
    using capture_in_range [OF assms(1), of c right] t by (simp add: pd_def)
  then obtain m3 where m3: "add_capture g vacant s pd (get_col s) right m2 = Some m3"
    and b3: "\<And>n. bit m3 n \<longleftrightarrow> bit m2 n \<or> capture_target g vacant s pd (get_col s) right n"
    using add_capture_bits [of "get_col s" right s pd g vacant m2] by blast
  have "pawn_step g b c s m = Some m3"
    using True assms(1) m1 m2 m3
    by (simp add: pawn_step_def test_bit_square pd_def start_def vacant_def)
  moreover have "bit m3 n \<longleftrightarrow> bit m n \<or> (bit b (nat s) \<and> pawn_target g c s n)" for n
    unfolding b3 b2 b1 using True
    by (simp add: pawn_target_def Let_def pd_def start_def vacant_def disj_assoc)
  ultimately show ?thesis by blast
qed

lemma pawn_step_None:
  assumes "is_square s" and "bit b (nat s)" and "\<not> is_square (s + get_pawn_direction c)"
  shows "pawn_step g b c s m = None"
  using assms by (simp add: pawn_step_def pawn_push_def test_bit_square test_bit_def)

lemma pawn_moves_bits:
  assumes "pawns_can_advance c b"
  shows "\<exists>m. get_pawn_moves g b c = Some m \<and>
           (\<forall>n. bit m n \<longleftrightarrow> (\<exists>s\<in>set squares. bit b (nat s) \<and> pawn_target g c s n))"
proof -
  have "\<exists>m'. pawn_step g b c s m = Some m' \<and>
           (\<forall>n. bit m' n \<longleftrightarrow> bit m n \<or> (bit b (nat s) \<and> pawn_target g c s n))"
    if "s \<in> set squares" for s m
    using that assms by (intro pawn_step_bits) (simp_all add: squares_iff pawns_can_advance_def)
  from for_each_bits [of squares "pawn_step g b c" "\<lambda>s n. bit b (nat s) \<and> pawn_target g c s n" 0,
      OF this]
  show ?thesis by (simp add: get_pawn_moves_def)
qed

lemma pawn_moves_None:
  assumes "\<not> pawns_can_advance c b"
  shows "get_pawn_moves g b c = None"
proof -
  from assms obtain s where s: "s \<in> set squares" "bit b (nat s)"
    "\<not> is_square (s + get_pawn_direction c)"
    unfolding pawns_can_advance_def by blast
  have "pawn_step g b c s m = None" for m
    using s by (intro pawn_step_None) (simp_all add: squares_iff)
  with s(1) show ?thesis unfolding get_pawn_moves_def by (rule for_each_None)
qed

lemma pawns_can_advance_or:
  "pawns_can_advance c (a OR b) \<longleftrightarrow> pawns_can_advance c a \<and> pawns_can_advance c b"
  unfolding pawns_can_advance_def bit_or_iff by blast

lemma pawns_can_advance_zero: "pawns_can_advance c 0"
  by (simp add: pawns_can_advance_def)

lemma pawn_moves_union:
  "get_pawn_moves g (a OR b) c =
     do { x \<leftarrow> get_pawn_moves g a c; y \<leftarrow> get_pawn_moves g b c; Some (x OR y) }"
proof (cases "pawns_can_advance c a \<and> pawns_can_advance c b")
  case True
  then have ab: "pawns_can_advance c (a OR b)" by (simp add: pawns_can_advance_or)
  from pawn_moves_bits [of c a g] True obtain x where x: "get_pawn_moves g a c = Some x"
    and bx: "\<And>n. bit x n \<longleftrightarrow> (\<exists>s\<in>set squares. bit a (nat s) \<and> pawn_target g c s n)" by blast
  from pawn_moves_bits [of c b g] True obtain y where y: "get_pawn_moves g b c = Some y"
    and "by": "\<And>n. bit y n \<longleftrightarrow> (\<exists>s\<in>set squares. bit b (nat s) \<and> pawn_target g c s n)" by blast
  from pawn_moves_bits [OF ab, of g] obtain z where z: "get_pawn_moves g (a OR b) c = Some z"
    and bz: "\<And>n. bit z n \<longleftrightarrow> (\<exists>s\<in>set squares. bit (a OR b) (nat s) \<and> pawn_target g c s n)"
    by blast
  have "z = x OR y" using bx "by" bz by (rule union_from_bits)
  then show ?thesis using x y z by simp
next
  case False
  then have "\<not> pawns_can_advance c (a OR b)" by (simp add: pawns_can_advance_or)
  then have "get_pawn_moves g (a OR b) c = None" by (rule pawn_moves_None)
  moreover have "get_pawn_moves g a c = None \<or> get_pawn_moves g b c = None"
    using False pawn_moves_None [of c a g] pawn_moves_None [of c b g] by auto
  ultimately show ?thesis by (auto simp: bind_eq_None_conv)
qed

lemma pawn_moves_empty: "get_pawn_moves g 0 c = Some 0"
proof -
  from pawn_moves_bits [of c 0 g, OF pawns_can_advance_zero] obtain z
    where z: "get_pawn_moves g 0 c = Some z"
    and bz: "\<And>n. bit z n \<longleftrightarrow> (\<exists>s\<in>set squares. bit (0::bitboard) (nat s) \<and> pawn_target g c s n)"
    by blast
  have "z = 0" using bz by (rule zero_from_bits)
  with z show ?thesis by simp
qed

lemma test_bit_True_iff: "test_bit m s = Some True \<longleftrightarrow> is_square s \<and> bit m (nat s)"
  by (simp add: test_bit_def)

lemma test_bit_False_iff: "test_bit m s = Some False \<longleftrightarrow> is_square s \<and> \<not> bit m (nat s)"
  by (simp add: test_bit_def)

lemma bit_vacant:
  "is_square s \<Longrightarrow> bit (NOT occ :: bitboard) (nat s) \<longleftrightarrow> \<not> bit occ (nat s)"
  by (auto simp: bit_not_iff is_square_def)

lemmas keep_shape = bit.de_Morgan_disj push_bit_of_1

lemma single_mask_bit:
  assumes "is_square s" and "is_square s'"
  shows "bit (push_bit (nat s) (1::bitboard)) (nat s') \<longleftrightarrow> s' = s"
  using assms by (auto simp: bit_push_bit_iff bit_1_iff bit_exp_iff is_square_def)

lemma single_mask_can_advance:
  assumes "is_square s" and "is_square (s + get_pawn_direction c)"
  shows "pawns_can_advance c (push_bit (nat s) 1)"
  unfolding pawns_can_advance_def using assms
  by (simp add: squares_iff single_mask_bit del: keep_shape)

lemma pawn_single_bits:
  assumes "is_square s" and "is_square (s + get_pawn_direction c)"
  shows "\<exists>m. get_pawn_moves g (push_bit (nat s) 1) c = Some m \<and>
           (\<forall>n. bit m n \<longleftrightarrow> pawn_target g c s n)"
proof -
  from pawn_moves_bits [OF single_mask_can_advance [OF assms], of g]
  obtain m where m: "get_pawn_moves g (push_bit (nat s) 1) c = Some m"
    and bm: "\<And>n. bit m n \<longleftrightarrow>
      (\<exists>s'\<in>set squares. bit (push_bit (nat s) (1::bitboard)) (nat s') \<and> pawn_target g c s' n)"
    by blast
  have "bit m n \<longleftrightarrow> pawn_target g c s n" for n
    unfolding bm using assms(1) by (auto simp: squares_iff single_mask_bit simp del: keep_shape)
  with m show ?thesis by blast
qed

lemma pawn_target_push:
  assumes "is_square (s + get_pawn_direction c)"
    and "\<not> bit (black (board g) OR white (board g)) (nat (s + get_pawn_direction c))"
  shows "pawn_target g c s (nat (s + get_pawn_direction c))"
  using assms by (simp add: pawn_target_def push_target_def Let_def bit_vacant del: keep_shape)

lemma pawn_target_double_push:
  assumes "is_square (s + get_pawn_direction c)"
    and "is_square (s + get_pawn_direction c + get_pawn_direction c)"
    and "get_row s = (if c = White then 6 else 1)"
    and "\<not> bit (black (board g) OR white (board g)) (nat (s + get_pawn_direction c))"
    and "\<not> bit (black (board g) OR white (board g))
           (nat (s + get_pawn_direction c + get_pawn_direction c))"
  shows "pawn_target g c s (nat (s + get_pawn_direction c + get_pawn_direction c))"
  using assms by (simp add: pawn_target_def push_target_def Let_def bit_vacant del: keep_shape)

lemma pawn_target_capture:
  assumes "dir = left \<or> dir = right" and "get_col s \<noteq> (if dir = left then 0 else 7)"
    and "is_square (s + get_pawn_direction c + dir)"
    and "bit (black (board g) OR white (board g)) (nat (s + get_pawn_direction c + dir))
         \<or> en_passant g = Some (s + get_pawn_direction c + dir)"
  shows "pawn_target g c s (nat (s + get_pawn_direction c + dir))"
  using assms
  by (auto simp: pawn_target_def capture_target_def Let_def bit_vacant left_def right_def
      simp del: keep_shape)

text \<open>Every destination of the pawn on \<open>s\<close>, with the rule that produces it.\<close>

lemma pawn_target_cases:
  assumes "pawn_target g c s n" and "is_square s" and "is_square (s + get_pawn_direction c)"
  shows "(n = nat (s + get_pawn_direction c) \<and>
            \<not> bit (black (board g) OR white (board g)) (nat (s + get_pawn_direction c)))
       \<or> (n = nat (s + get_pawn_direction c + get_pawn_direction c) \<and>
            get_row s = (if c = White then 6 else 1) \<and>
            \<not> bit (black (board g) OR white (board g)) (nat (s + get_pawn_direction c)) \<and>
            \<not> bit (black (board g) OR white (board g))
                (nat (s + get_pawn_direction c + get_pawn_direction c)))
       \<or> (\<exists>dir. (dir = left \<or> dir = right) \<and> get_col s \<noteq> (if dir = left then 0 else 7) \<and>
            n = nat (s + get_pawn_direction c + dir) \<and>
            is_square (s + get_pawn_direction c + dir) \<and>
            (bit (black (board g) OR white (board g)) (nat (s + get_pawn_direction c + dir))
             \<or> en_passant g = Some (s + get_pawn_direction c + dir)))"
proof -
  let ?pd = "get_pawn_direction c"
  let ?vac = "NOT (black (board g) OR white (board g))"
  from assms(1) consider
      (push) "push_target ?vac s ?pd (get_row s) (if c = White then 6 else 1) n"
    | (left) "capture_target g ?vac s ?pd (get_col s) left n"
    | (right) "capture_target g ?vac s ?pd (get_col s) right n"
    unfolding pawn_target_def Let_def by blast
  then show ?thesis
  proof cases
    case push
    then show ?thesis using assms(3) double_push_in_range [OF assms(2), of c]
      unfolding push_target_def by (auto simp: bit_vacant simp del: keep_shape)
  next
    case left
    then have e: "get_col s \<noteq> (if left = left then 0 else 7)" "n = nat (s + ?pd + left)"
      and o: "\<not> bit ?vac (nat (s + ?pd + left)) \<or> en_passant g = Some (s + ?pd + left)"
      unfolding capture_target_def by simp_all
    have sq: "is_square (s + ?pd + left)"
      by (rule capture_in_range [OF assms(2,3) e(1)]) simp
    with e o show ?thesis
      by (intro disjI2 exI [of _ left]) (simp add: bit_vacant del: keep_shape)
  next
    case right
    then have e: "get_col s \<noteq> (if right = left then 0 else 7)" "n = nat (s + ?pd + right)"
      and o: "\<not> bit ?vac (nat (s + ?pd + right)) \<or> en_passant g = Some (s + ?pd + right)"
      unfolding capture_target_def by simp_all
    have sq: "is_square (s + ?pd + right)"
      by (rule capture_in_range [OF assms(2,3) e(1)]) simp
    with e o show ?thesis
      by (intro disjI2 exI [of _ right]) (simp add: bit_vacant del: keep_shape)
  qed
qed

lemma start_row_can_advance:
  assumes "is_square s" and "get_row s = (if c = White then 6 else 1)"
  shows "is_square (s + get_pawn_direction c)"
  using assms
  by (cases c) (auto simp: is_square_def get_row_nonneg get_pawn_direction_def up_def down_def)

lemma nat_square_eq: "is_square p \<Longrightarrow> is_square q \<Longrightarrow> nat p = nat q \<longleftrightarrow> p = q"
  by (auto simp: is_square_def)

lemma pawn_dir_cases: "get_pawn_direction c = - 8 \<or> get_pawn_direction c = 8"
  by (simp add: get_pawn_direction_def up_def down_def)

text \<open>The pawn on \<open>s\<close> produces its push square only when that square is vacant, and its
  double-push square only when the push square is vacant.\<close>

lemma pawn_target_blocked:
  assumes "is_square s" and "is_square (s + get_pawn_direction c)"
    and "is_square (s + get_pawn_direction c + get_pawn_direction c)"
    and "bit (black (board g) OR white (board g)) (nat (s + get_pawn_direction c))"
  shows "\<not> pawn_target g c s (nat (s + get_pawn_direction c))"
    and "\<not> pawn_target g c s (nat (s + get_pawn_direction c + get_pawn_direction c))"
proof -
  let ?t = "s + get_pawn_direction c"
  have neq: "?t + d \<noteq> ?t" "?t + d \<noteq> ?t + get_pawn_direction c" if "d = left \<or> d = right" for d
    using that pawn_dir_cases [of c] by (auto simp: left_def right_def)
  show "\<not> pawn_target g c s (nat ?t)"
  proof
    assume "pawn_target g c s (nat ?t)"
    from pawn_target_cases [OF this assms(1,2)] assms(4)
    obtain d where "d = left \<or> d = right" "nat ?t = nat (?t + d)" "is_square (?t + d)"
      by auto
    then show False using neq(1) [of d] nat_square_eq [OF assms(2), of "?t + d"] by simp
  qed
  show "\<not> pawn_target g c s (nat (?t + get_pawn_direction c))"
  proof
    assume "pawn_target g c s (nat (?t + get_pawn_direction c))"
    from pawn_target_cases [OF this assms(1,2)] assms(4)
    consider "nat (?t + get_pawn_direction c) = nat ?t"
      | d where "d = left \<or> d = right" "nat (?t + get_pawn_direction c) = nat (?t + d)"
          "is_square (?t + d)"
      by auto
    then show False
    proof cases
      case 1
      then show ?thesis
        using nat_square_eq [OF assms(3,2)] pawn_dir_cases [of c] by auto
    next
      case 2
      then show ?thesis using neq(2) [of d] nat_square_eq [OF assms(3), of "?t + d"] by simp
    qed
  qed
qed

subsection \<open>Pawn pushes\<close>

text \<open>
  Claim C3 says that for a source square \<open>s\<close> on the starting row whose push square
  \<open>t\<close> is occupied, neither \<open>t\<close> nor the double-push square \<open>t2\<close> is set.  That holds
  of the pawn on \<open>s\<close>, not of the whole result: here the white pawns on 52 and 44 are
  both selected, the push square 44 of the pawn on 52 is occupied, and its double-push
  square 36 is set all the same, by the pawn on 44.
\<close>

theorem pawn_double_push_counterexample:
  "\<exists>moves. get_pawn_moves \<lparr>board = \<lparr>white = push_bit 52 1 OR push_bit 44 1, black = 0\<rparr>,
       en_passant = None\<rparr> (push_bit 52 1 OR push_bit 44 1) White = Some moves \<and>
     test_bit (push_bit 52 1 OR push_bit 44 1) 52 = Some True \<and>
     get_row 52 = 6 \<and>
     test_bit (black (board \<lparr>board = \<lparr>white = push_bit 52 1 OR push_bit 44 1, black = 0\<rparr>,
         en_passant = None\<rparr>) OR
       white (board \<lparr>board = \<lparr>white = push_bit 52 1 OR push_bit 44 1, black = 0\<rparr>,
         en_passant = None\<rparr>)) (52 + get_pawn_direction White) = Some True \<and>
     test_bit moves (52 + get_pawn_direction White + get_pawn_direction White) = Some True"
proof -
  have "get_pawn_moves \<lparr>board = \<lparr>white = push_bit 52 1 OR push_bit 44 1, black = 0\<rparr>,
       en_passant = None\<rparr> (push_bit 52 1 OR push_bit 44 1) White = Some (push_bit 36 1)"
    by code_simp
  then show ?thesis
    by (simp add: test_bit_def is_square_def get_row_def get_pawn_direction_def up_def
        bit_or_iff)
qed

text \<open>
  Claim C3, as amended.  Let \<open>s\<close> be a square on the starting row of colour \<open>c\<close> (row 6
  for white, row 1 for black), \<open>t\<close> the square in front of it and \<open>t2\<close> the square in
  front of \<open>t\<close>.
  \<^item> If \<open>t\<close> is vacant then, for every admissible source mask that selects \<open>s\<close>,
    \<open>t\<close> is set in the result of \<^verbatim>\<open>get_pawn_moves\<close>, and so is \<open>t2\<close> when \<open>t2\<close>
    is vacant as well.
  \<^item> If \<open>t\<close> is occupied (by either colour) the pawn on \<open>s\<close> sets neither \<open>t\<close> nor
    \<open>t2\<close>, whatever the occupancy of \<open>t2\<close>: the loop body for \<open>s\<close> leaves both bits as
    they were, and with \<open>s\<close> the only source neither bit is set in the result.
\<close>

theorem pawn_double_push:
  assumes "is_square s" and "get_row s = (if c = White then 6 else 1)"
    and "t = s + get_pawn_direction c" and "t2 = t + get_pawn_direction c"
    and "occupied = black (board g) OR white (board g)"
  shows "(test_bit occupied t = Some False \<longrightarrow>
           (\<forall>b. bit b (nat s) \<and> pawns_can_advance c b \<longrightarrow>
              (\<exists>moves. get_pawn_moves g b c = Some moves \<and> test_bit moves t = Some True \<and>
                 (test_bit occupied t2 = Some False \<longrightarrow> test_bit moves t2 = Some True))))
       \<and> (test_bit occupied t = Some True \<longrightarrow>
           (\<forall>b moves. bit b (nat s) \<longrightarrow>
              (\<exists>moves'. pawn_step g b c s moves = Some moves' \<and>
                 test_bit moves' t = test_bit moves t \<and> test_bit moves' t2 = test_bit moves t2))
           \<and> (\<exists>moves. get_pawn_moves g (push_bit (nat s) 1) c = Some moves \<and>
                 test_bit moves t = Some False \<and> test_bit moves t2 = Some False))"
proof -
  have sq_t: "is_square t"
    unfolding assms(3) by (rule start_row_can_advance [OF assms(1,2)])
  have sq_t2: "is_square t2"
    unfolding assms(3,4) by (rule double_push_in_range [OF assms(1,2)])
  have in_sq: "s \<in> set squares" using assms(1) by (simp add: squares_iff)
  have vacant_part: "\<exists>moves. get_pawn_moves g b c = Some moves \<and> test_bit moves t = Some True \<and>
      (test_bit occupied t2 = Some False \<longrightarrow> test_bit moves t2 = Some True)"
    if vac: "test_bit occupied t = Some False" and b: "bit b (nat s)" "pawns_can_advance c b" for b
  proof -
    from pawn_moves_bits [OF b(2), of g] obtain moves
      where m: "get_pawn_moves g b c = Some moves"
        and bm: "\<And>n. bit moves n \<longleftrightarrow> (\<exists>s\<in>set squares. bit b (nat s) \<and> pawn_target g c s n)"
      by blast
    have free: "\<not> bit (black (board g) OR white (board g)) (nat (s + get_pawn_direction c))"
      using vac by (simp add: test_bit_False_iff assms(3,5))
    have "pawn_target g c s (nat (s + get_pawn_direction c))"
      using sq_t free unfolding assms(3) by (rule pawn_target_push)
    then have "bit moves (nat t)" unfolding bm assms(3) using in_sq b(1) by blast
    then have one: "test_bit moves t = Some True" using sq_t by (simp add: test_bit_True_iff)
    have two: "test_bit moves t2 = Some True" if "test_bit occupied t2 = Some False"
    proof -
      have free2: "\<not> bit (black (board g) OR white (board g))
          (nat (s + get_pawn_direction c + get_pawn_direction c))"
        using that by (simp add: test_bit_False_iff assms(3,4,5))
      have "pawn_target g c s (nat (s + get_pawn_direction c + get_pawn_direction c))"
        using sq_t sq_t2 assms(2) free free2 unfolding assms(3,4)
        by (rule pawn_target_double_push)
      then have "bit moves (nat t2)" unfolding bm assms(3,4) using in_sq b(1) by blast
      then show ?thesis using sq_t2 by (simp add: test_bit_True_iff)
    qed
    from m one two show ?thesis by blast
  qed
  have blocked: "\<not> pawn_target g c s (nat t)" "\<not> pawn_target g c s (nat t2)"
    if "test_bit occupied t = Some True"
  proof -
    have occ: "bit (black (board g) OR white (board g)) (nat (s + get_pawn_direction c))"
      using that by (simp add: test_bit_True_iff assms(3,5))
    show "\<not> pawn_target g c s (nat t)" "\<not> pawn_target g c s (nat t2)"
      unfolding assms(3,4)
      using pawn_target_blocked [OF assms(1) sq_t [unfolded assms(3)]
          sq_t2 [unfolded assms(3,4)] occ]
      by simp_all
  qed
  have step_part: "\<exists>moves'. pawn_step g b c s moves = Some moves' \<and>
      test_bit moves' t = test_bit moves t \<and> test_bit moves' t2 = test_bit moves t2"
    if occ: "test_bit occupied t = Some True" and b: "bit b (nat s)" for b moves
  proof -
    from pawn_step_bits [OF assms(1), of b c g moves] sq_t obtain moves'
      where m: "pawn_step g b c s moves = Some moves'"
        and bm: "\<And>n. bit moves' n \<longleftrightarrow> bit moves n \<or> (bit b (nat s) \<and> pawn_target g c s n)"
      unfolding assms(3) by blast
    have "bit moves' (nat t) = bit moves (nat t)" "bit moves' (nat t2) = bit moves (nat t2)"
      unfolding bm using blocked [OF occ] by simp_all
    then have "test_bit moves' t = test_bit moves t" "test_bit moves' t2 = test_bit moves t2"
      by (simp_all add: test_bit_def)
    with m show ?thesis by blast
  qed
  have single_part: "\<exists>moves. get_pawn_moves g (push_bit (nat s) 1) c = Some moves \<and>
      test_bit moves t = Some False \<and> test_bit moves t2 = Some False"
    if occ: "test_bit occupied t = Some True"
  proof -
    from pawn_single_bits [OF assms(1) sq_t [unfolded assms(3)], of g] obtain moves
      where m: "get_pawn_moves g (push_bit (nat s) 1) c = Some moves"
        and bm: "\<And>n. bit moves n \<longleftrightarrow> pawn_target g c s n"
      by blast
    have "test_bit moves t = Some False" "test_bit moves t2 = Some False"
      using blocked [OF occ] sq_t sq_t2 by (simp_all add: test_bit_False_iff bm)
    with m show ?thesis by blast
  qed
  show ?thesis
    using vacant_part step_part single_part by blast
qed

theorem pawn_double_push_witness:
  "(\<exists>moves. get_pawn_moves \<lparr>board = \<lparr>white = push_bit 52 1, black = 0\<rparr>, en_passant = None\<rparr>
        (push_bit 52 1) White = Some moves \<and>
      test_bit moves 44 = Some True \<and> test_bit moves 36 = Some True)
   \<and> (\<exists>moves. get_pawn_moves \<lparr>board = \<lparr>white = push_bit 52 1, black = push_bit 44 1\<rparr>,
          en_passant = None\<rparr> (push_bit 52 1) White = Some moves \<and>
      test_bit moves 44 = Some False \<and> test_bit moves 36 = Some False)"
proof -
  let ?g = "\<lparr>board = \<lparr>white = push_bit 52 1, black = 0\<rparr>, en_passant = None\<rparr>"
  let ?h = "\<lparr>board = \<lparr>white = push_bit 52 1, black = push_bit 44 1\<rparr>, en_passant = None\<rparr>"
  have s: "is_square 52" by (simp add: is_square_def)
  have r: "get_row 52 = (if White = White then 6 else 1)" by (simp add: get_row_def)
  have t: "44 = 52 + get_pawn_direction White" "36 = 44 + get_pawn_direction White"
    by (simp_all add: get_pawn_direction_def up_def)
  have v: "test_bit (push_bit 52 1 :: bitboard) 44 = Some False"
    "test_bit (push_bit 52 1 :: bitboard) 36 = Some False"
    "test_bit (push_bit 44 1 OR push_bit 52 1 :: bitboard) 44 = Some True"
    by (simp_all add: test_bit_def is_square_def)
  have b: "bit (push_bit 52 1 :: bitboard) (nat 52)" by simp
  have a: "pawns_can_advance White (push_bit 52 1)" by code_simp
  from pawn_double_push [OF s r t, of "push_bit 52 1" ?g] v(1,2) b a
  have "\<exists>moves. get_pawn_moves ?g (push_bit 52 1) White = Some moves \<and>
      test_bit moves 44 = Some True \<and> test_bit moves 36 = Some True"
    by simp
  moreover from pawn_double_push [OF s r t, of "push_bit 44 1 OR push_bit 52 1" ?h] v(3)
  have "\<exists>moves. get_pawn_moves ?h (push_bit 52 1) White = Some moves \<and>
      test_bit moves 44 = Some False \<and> test_bit moves 36 = Some False"
    by simp
  ultimately show ?thesis by blast
qed

subsection \<open>Pawn captures\<close>

text \<open>
  Claim C4.  Let \<open>s\<close> be a source square that is not on an edge column and has a square
  in front of it, and let \<open>sq\<close> be one of its two diagonal squares.
  \<^item> If \<open>sq\<close> is occupied by either colour, or \<open>sq\<close> is the en-passant target (occupied
    or vacant), then \<open>sq\<close> is set in the result of \<^verbatim>\<open>get_pawn_moves\<close> for every
    admissible source mask that selects \<open>s\<close>.
  \<^item> If \<open>sq\<close> is vacant and is not the en-passant target, \<^verbatim>\<open>add_capture\<close> returns the
    moves unchanged; with \<open>s\<close> the only source \<open>sq\<close> is not set in the result; and in
    the result for any admissible source mask \<open>sq\<close> is set only as the push or double
    push destination of a selected pawn.
\<close>

theorem pawn_capture_rule:
  assumes "is_square s" and "is_square (s + get_pawn_direction c)"
    and "get_col s \<noteq> 0" and "get_col s \<noteq> 7"
    and "dir = left \<or> dir = right" and "sq = s + get_pawn_direction c + dir"
    and "occupied = black (board g) OR white (board g)"
  shows "(test_bit occupied sq = Some True \<or> en_passant g = Some sq \<longrightarrow>
           (\<forall>b. bit b (nat s) \<and> pawns_can_advance c b \<longrightarrow>
              (\<exists>moves. get_pawn_moves g b c = Some moves \<and> test_bit moves sq = Some True)))
       \<and> (test_bit occupied sq = Some False \<and> en_passant g \<noteq> Some sq \<longrightarrow>
           (\<forall>moves. add_capture g (NOT occupied) s (get_pawn_direction c) (get_col s) dir moves
                     = Some moves)
           \<and> (\<exists>moves. get_pawn_moves g (push_bit (nat s) 1) c = Some moves \<and>
                 test_bit moves sq = Some False)
           \<and> (\<forall>b. pawns_can_advance c b \<longrightarrow>
                 (\<exists>moves. get_pawn_moves g b c = Some moves \<and>
                    (test_bit moves sq = Some True \<longrightarrow>
                       (\<exists>s'\<in>set squares. bit b (nat s') \<and>
                          (sq = s' + get_pawn_direction c \<or>
                           sq = s' + get_pawn_direction c + get_pawn_direction c))))))"
proof -
  have edge: "get_col s \<noteq> (if dir = left then 0 else 7)" using assms(3,4) by simp
  have sq: "is_square sq"
    unfolding assms(6) by (rule capture_in_range [OF assms(1,2) edge assms(5)])
  have in_sq: "s \<in> set squares" using assms(1) by (simp add: squares_iff)
  have set_part: "\<exists>moves. get_pawn_moves g b c = Some moves \<and> test_bit moves sq = Some True"
    if hit: "test_bit occupied sq = Some True \<or> en_passant g = Some sq"
      and b: "bit b (nat s)" "pawns_can_advance c b" for b
  proof -
    from pawn_moves_bits [OF b(2), of g] obtain moves
      where m: "get_pawn_moves g b c = Some moves"
        and bm: "\<And>n. bit moves n \<longleftrightarrow> (\<exists>s\<in>set squares. bit b (nat s) \<and> pawn_target g c s n)"
      by blast
    have "bit (black (board g) OR white (board g)) (nat (s + get_pawn_direction c + dir))
         \<or> en_passant g = Some (s + get_pawn_direction c + dir)"
      using hit by (auto simp: test_bit_True_iff assms(6,7))
    with assms(5) edge sq [unfolded assms(6)]
    have "pawn_target g c s (nat (s + get_pawn_direction c + dir))"
      by (rule pawn_target_capture)
    then have "bit moves (nat sq)" unfolding bm assms(6) using in_sq b(1) by blast
    then have "test_bit moves sq = Some True" using sq by (simp add: test_bit_True_iff)
    with m show ?thesis by blast
  qed
  have miss: "\<not> bit (black (board g) OR white (board g)) (nat sq)" "en_passant g \<noteq> Some sq"
    if "test_bit occupied sq = Some False \<and> en_passant g \<noteq> Some sq"
    using that by (simp_all add: test_bit_False_iff assms(7))
  have rule_part: "add_capture g (NOT occupied) s (get_pawn_direction c) (get_col s) dir moves
      = Some moves"
    if vac: "test_bit occupied sq = Some False \<and> en_passant g \<noteq> Some sq" for moves
    using miss [OF vac] edge sq
    by (auto simp: add_capture_def Let_def test_bit_square bit_vacant assms(6,7)
        simp del: keep_shape)
  have single_part: "\<exists>moves. get_pawn_moves g (push_bit (nat s) 1) c = Some moves \<and>
      test_bit moves sq = Some False"
    if vac: "test_bit occupied sq = Some False \<and> en_passant g \<noteq> Some sq"
  proof -
    from pawn_single_bits [OF assms(1,2), of g] obtain moves
      where m: "get_pawn_moves g (push_bit (nat s) 1) c = Some moves"
        and bm: "\<And>n. bit moves n \<longleftrightarrow> pawn_target g c s n"
      by blast
    have "\<not> pawn_target g c s (nat sq)"
    proof
      assume "pawn_target g c s (nat sq)"
      from pawn_target_cases [OF this assms(1,2)] miss [OF vac]
      consider "nat sq = nat (s + get_pawn_direction c)"
        | "nat sq = nat (s + get_pawn_direction c + get_pawn_direction c)"
          "get_row s = (if c = White then 6 else 1)"
        | d where "d = left \<or> d = right" "nat sq = nat (s + get_pawn_direction c + d)"
            "is_square (s + get_pawn_direction c + d)"
            "bit (black (board g) OR white (board g)) (nat (s + get_pawn_direction c + d))
             \<or> en_passant g = Some (s + get_pawn_direction c + d)"
        by blast
      then show False
      proof cases
        case 1
        then show ?thesis
          using nat_square_eq [OF sq assms(2)] assms(5) by (auto simp: assms(6) left_def right_def)
      next
        case 2
        then show ?thesis
          using nat_square_eq [OF sq double_push_in_range [OF assms(1) 2(2)]] assms(5)
            pawn_dir_cases [of c]
          by (auto simp: assms(6) left_def right_def)
      next
        case 3
        from 3(2) nat_square_eq [OF sq 3(3)] have "sq = s + get_pawn_direction c + d" by simp
        with 3(4) miss [OF vac] show ?thesis by simp
      qed
    qed
    then have "test_bit moves sq = Some False" using sq by (simp add: test_bit_False_iff bm)
    with m show ?thesis by blast
  qed
  have push_only: "\<exists>moves. get_pawn_moves g b c = Some moves \<and>
      (test_bit moves sq = Some True \<longrightarrow>
         (\<exists>s'\<in>set squares. bit b (nat s') \<and>
            (sq = s' + get_pawn_direction c \<or>
             sq = s' + get_pawn_direction c + get_pawn_direction c)))"
    if vac: "test_bit occupied sq = Some False \<and> en_passant g \<noteq> Some sq"
      and adv: "pawns_can_advance c b" for b
  proof -
    from pawn_moves_bits [OF adv, of g] obtain moves
      where m: "get_pawn_moves g b c = Some moves"
        and bm: "\<And>n. bit moves n \<longleftrightarrow> (\<exists>s\<in>set squares. bit b (nat s) \<and> pawn_target g c s n)"
      by blast
    have "\<exists>s'\<in>set squares. bit b (nat s') \<and>
        (sq = s' + get_pawn_direction c \<or> sq = s' + get_pawn_direction c + get_pawn_direction c)"
      if "test_bit moves sq = Some True"
    proof -
      from that have "bit moves (nat sq)" by (simp add: test_bit_True_iff)
      then obtain s' where s': "s' \<in> set squares" "bit b (nat s')" "pawn_target g c s' (nat sq)"
        unfolding bm by blast
      from s'(1) have sq': "is_square s'" by (simp add: squares_iff)
      from adv s'(1,2) have t': "is_square (s' + get_pawn_direction c)"
        unfolding pawns_can_advance_def by blast
      from pawn_target_cases [OF s'(3) sq' t']
      consider "nat sq = nat (s' + get_pawn_direction c)"
        | "nat sq = nat (s' + get_pawn_direction c + get_pawn_direction c)"
          "get_row s' = (if c = White then 6 else 1)"
        | d where "nat sq = nat (s' + get_pawn_direction c + d)"
            "is_square (s' + get_pawn_direction c + d)"
            "bit (black (board g) OR white (board g)) (nat (s' + get_pawn_direction c + d))
             \<or> en_passant g = Some (s' + get_pawn_direction c + d)"
        by blast
      then have "sq = s' + get_pawn_direction c
          \<or> sq = s' + get_pawn_direction c + get_pawn_direction c"
      proof cases
        case 1
        then show ?thesis using nat_square_eq [OF sq t'] by simp
      next
        case 2
        then show ?thesis
          using nat_square_eq [OF sq double_push_in_range [OF sq' 2(2)]] by simp
      next
        case 3
        from 3(1) nat_square_eq [OF sq 3(2)] have "sq = s' + get_pawn_direction c + d" by simp
        with 3(3) miss [OF vac] show ?thesis by simp
      qed
      with s'(1,2) show ?thesis by blast
    qed
    with m show ?thesis by blast
  qed
  show ?thesis using set_part rule_part single_part push_only by blast
qed

theorem pawn_capture_rule_witness:
  "(\<exists>moves. get_pawn_moves \<lparr>board = \<lparr>white = push_bit 36 1, black = 0\<rparr>, en_passant = Some 27\<rparr>
        (push_bit 36 1) White = Some moves \<and> test_bit moves 27 = Some True)
   \<and> (\<exists>moves. get_pawn_moves \<lparr>board = \<lparr>white = push_bit 36 1, black = 0\<rparr>,
          en_passant = Some 29\<rparr> (push_bit 36 1) White = Some moves \<and>
        test_bit moves 27 = Some False)"
proof -
  let ?g = "\<lparr>board = \<lparr>white = push_bit 36 1, black = 0\<rparr>, en_passant = Some 27\<rparr>"
  let ?h = "\<lparr>board = \<lparr>white = push_bit 36 1, black = 0\<rparr>, en_passant = Some 29\<rparr>"
  have s: "is_square 36" "is_square (36 + get_pawn_direction White)"
    by (simp_all add: is_square_def get_pawn_direction_def up_def)
  have col: "get_col 36 \<noteq> 0" "get_col 36 \<noteq> 7" by (simp_all add: get_col_def)
  have d: "left = left \<or> left = right" by simp
  have sq: "27 = 36 + get_pawn_direction White + left"
    by (simp add: get_pawn_direction_def up_def left_def)
  have v: "test_bit (push_bit 36 1 :: bitboard) 27 = Some False"
    by (simp add: test_bit_def is_square_def)
  have b: "bit (push_bit 36 1 :: bitboard) (nat 36)" by simp
  have a: "pawns_can_advance White (push_bit 36 1)" by code_simp
  from pawn_capture_rule [OF s col d sq, of "push_bit 36 1" ?g] b a
  have "\<exists>moves. get_pawn_moves ?g (push_bit 36 1) White = Some moves \<and>
      test_bit moves 27 = Some True"
    by simp
  moreover from pawn_capture_rule [OF s col d sq, of "push_bit 36 1" ?h] v
  have "\<exists>moves. get_pawn_moves ?h (push_bit 36 1) White = Some moves \<and>
      test_bit moves 27 = Some False"
    by simp
  ultimately show ?thesis by blast
qed

text \<open>
  Claim C6.  The capture rule does not look at the colour of the occupant: when the
  diagonal square \<open>sq\<close> of a selected pawn of colour \<open>c\<close> (not on the edge column of
  that side) holds a piece of colour \<open>c'\<close>, for any \<open>c'\<close> and in particular for
  \<open>c' = c\<close>, then \<open>sq\<close> is set in the result.
\<close>

theorem pawn_capture_any_color:
  assumes "is_square s" and "bit b (nat s)" and "pawns_can_advance c b"
    and "dir = left \<or> dir = right" and "get_col s \<noteq> (if dir = left then 0 else 7)"
    and "sq = s + get_pawn_direction c + dir"
    and "test_bit (if c' = White then white (board g) else black (board g)) sq = Some True"
  shows "\<exists>moves. get_pawn_moves g b c = Some moves \<and> test_bit moves sq = Some True"
proof -
  have in_sq: "s \<in> set squares" using assms(1) by (simp add: squares_iff)
  have adv: "is_square (s + get_pawn_direction c)"
    using assms(2,3) in_sq unfolding pawns_can_advance_def by blast
  have sq: "is_square sq" using assms(7) by (simp add: test_bit_True_iff)
  from pawn_moves_bits [OF assms(3), of g] obtain moves
    where m: "get_pawn_moves g b c = Some moves"
      and bm: "\<And>n. bit moves n \<longleftrightarrow> (\<exists>s\<in>set squares. bit b (nat s) \<and> pawn_target g c s n)"
    by blast
  have "bit (black (board g) OR white (board g)) (nat (s + get_pawn_direction c + dir))"
    using assms(7) by (cases c') (simp_all add: test_bit_True_iff bit_or_iff assms(6))
  then have "bit (black (board g) OR white (board g)) (nat (s + get_pawn_direction c + dir))
         \<or> en_passant g = Some (s + get_pawn_direction c + dir)" ..
  with assms(4,5) sq [unfolded assms(6)]
  have "pawn_target g c s (nat (s + get_pawn_direction c + dir))"
    by (rule pawn_target_capture)
  then have "bit moves (nat sq)" unfolding bm assms(6) using in_sq assms(2) by blast
  then have "test_bit moves sq = Some True" using sq by (simp add: test_bit_True_iff)
  with m show ?thesis by blast
qed

theorem pawn_capture_any_color_witness:
  "\<exists>moves. get_pawn_moves \<lparr>board = \<lparr>white = push_bit 36 1 OR push_bit 29 1, black = 0\<rparr>,
       en_passant = None\<rparr> (push_bit 36 1) White = Some moves \<and> test_bit moves 29 = Some True"
proof -
  let ?g = "\<lparr>board = \<lparr>white = push_bit 36 1 OR push_bit 29 1, black = 0\<rparr>, en_passant = None\<rparr>"
  have s: "is_square 36" by (simp add: is_square_def)
  have b: "bit (push_bit 36 1 :: bitboard) (nat 36)" by simp
  have a: "pawns_can_advance White (push_bit 36 1)" by code_simp
  have d: "right = left \<or> right = right" by simp
  have col: "get_col 36 \<noteq> (if right = left then 0 else 7)"
    by (simp add: get_col_def left_def right_def)
  have sq: "29 = 36 + get_pawn_direction White + right"
    by (simp add: get_pawn_direction_def up_def right_def)
  have o: "test_bit (if White = White then white (board ?g) else black (board ?g)) 29 = Some True"
    by (simp add: test_bit_def is_square_def bit_or_iff)
  from pawn_capture_any_color [OF s b a d col sq o] show ?thesis .
qed

lemma divmod_unique8:
  fixes s q r :: int
  assumes "s = 8 * q + r" and "0 \<le> r" and "r < 8"
  shows "s mod 8 = r" and "s div 8 = q"
  using assms by (simp_all add: int_mod_pos_eq int_div_pos_eq)

lemma divmod_shift8:
  fixes s :: int
  shows "(s + 8 * k + d) mod 8 = (s + d) mod 8" "(s + 8 * k + d) div 8 = (s + d) div 8 + k"
proof -
  have "s + 8 * k + d = (s + d) + k * 8" by simp
  then show "(s + 8 * k + d) mod 8 = (s + d) mod 8" "(s + 8 * k + d) div 8 = (s + d) div 8 + k"
    by (simp_all only: mod_mult_self1 div_mult_self1)
qed

lemma step_left:
  fixes s :: int
  assumes "s mod 8 \<noteq> 0"
  shows "(s - 1) mod 8 = s mod 8 - 1" "(s - 1) div 8 = s div 8"
proof -
  have "s - 1 = 8 * (s div 8) + (s mod 8 - 1)" by simp
  moreover have "0 \<le> s mod 8 - 1" "s mod 8 - 1 < 8"
    using assms pos_mod_sign [of 8 s] pos_mod_bound [of 8 s] by simp_all
  ultimately show "(s - 1) mod 8 = s mod 8 - 1" "(s - 1) div 8 = s div 8"
    by (rule divmod_unique8)+
qed

lemma step_right:
  fixes s :: int
  assumes "s mod 8 \<noteq> 7"
  shows "(s + 1) mod 8 = s mod 8 + 1" "(s + 1) div 8 = s div 8"
proof -
  have "s + 1 = 8 * (s div 8) + (s mod 8 + 1)" by simp
  moreover have "0 \<le> s mod 8 + 1" "s mod 8 + 1 < 8"
    using assms pos_mod_sign [of 8 s] pos_mod_bound [of 8 s] by simp_all
  ultimately show "(s + 1) mod 8 = s mod 8 + 1" "(s + 1) div 8 = s div 8"
    by (rule divmod_unique8)+
qed

lemma square_row_col:
  assumes "is_square s"
  shows "get_row s = s div 8" and "get_col s = s mod 8"
  using assms by (simp_all add: is_square_def get_row_nonneg get_col_nonneg)

lemma pawn_dir_forward: "get_pawn_direction c = 8 * forward_row c"
  by (simp add: get_pawn_direction_def forward_row_def up_def down_def)

lemma ahead_geometry:
  assumes "is_square s" and "is_square (s + j * get_pawn_direction c)"
  shows "get_col (s + j * get_pawn_direction c) = get_col s"
    and "get_row (s + j * get_pawn_direction c) = get_row s + j * forward_row c"
proof -
  have e: "s + j * get_pawn_direction c = s + 8 * (j * forward_row c) + 0"
    by (simp add: pawn_dir_forward)
  show "get_col (s + j * get_pawn_direction c) = get_col s"
    unfolding square_row_col [OF assms(2)] square_row_col [OF assms(1)]
    unfolding e divmod_shift8 by simp
  show "get_row (s + j * get_pawn_direction c) = get_row s + j * forward_row c"
    unfolding square_row_col [OF assms(2)] square_row_col [OF assms(1)]
    unfolding e divmod_shift8 by simp
qed

lemma diagonal_geometry:
  assumes "is_square s" and "is_square (s + get_pawn_direction c + dir)"
    and "dir = left \<or> dir = right" and "get_col s \<noteq> (if dir = left then 0 else 7)"
  shows "get_col (s + get_pawn_direction c + dir) = get_col s + dir"
    and "get_row (s + get_pawn_direction c + dir) = get_row s + forward_row c"
proof -
  have e: "s + get_pawn_direction c + dir = s + 8 * forward_row c + dir"
    by (simp add: pawn_dir_forward)
  from assms(3) show "get_col (s + get_pawn_direction c + dir) = get_col s + dir"
  proof
    assume d: "dir = left"
    with assms(4) have "s mod 8 \<noteq> 0" by (simp add: square_row_col [OF assms(1)])
    from step_left(1) [OF this] show ?thesis
      unfolding square_row_col [OF assms(2)] square_row_col [OF assms(1)]
      unfolding e divmod_shift8 by (simp add: d left_def)
  next
    assume d: "dir = right"
    with assms(4) have "s mod 8 \<noteq> 7"
      by (simp add: square_row_col [OF assms(1)] left_def right_def)
    from step_right(1) [OF this] show ?thesis
      unfolding square_row_col [OF assms(2)] square_row_col [OF assms(1)]
      unfolding e divmod_shift8 by (simp add: d right_def)
  qed
  from assms(3) show "get_row (s + get_pawn_direction c + dir) = get_row s + forward_row c"
  proof
    assume d: "dir = left"
    with assms(4) have "s mod 8 \<noteq> 0" by (simp add: square_row_col [OF assms(1)])
    from step_left(2) [OF this] show ?thesis
      unfolding square_row_col [OF assms(2)] square_row_col [OF assms(1)]
      unfolding e divmod_shift8 by (simp add: d left_def)
  next
    assume d: "dir = right"
    with assms(4) have "s mod 8 \<noteq> 7"
      by (simp add: square_row_col [OF assms(1)] left_def right_def)
    from step_right(2) [OF this] show ?thesis
      unfolding square_row_col [OF assms(2)] square_row_col [OF assms(1)]
      unfolding e divmod_shift8 by (simp add: d right_def)
  qed
qed

lemma pawn_target_ahead:
  assumes "pawn_target g c s n" and "is_square s" and "is_square (s + get_pawn_direction c)"
  shows "ahead_of c s (int n)"
proof -
  let ?pd = "get_pawn_direction c"
  from pawn_target_cases [OF assms]
  consider (one) "n = nat (s + ?pd)"
    | (two) "n = nat (s + ?pd + ?pd)" "get_row s = (if c = White then 6 else 1)"
    | (cap) d where "d = left \<or> d = right" "get_col s \<noteq> (if d = left then 0 else 7)"
        "n = nat (s + ?pd + d)" "is_square (s + ?pd + d)"
    by blast
  then show ?thesis
  proof cases
    case one
    then have n: "int n = s + 1 * ?pd" using assms(3) by (simp add: is_square_def)
    have sq: "is_square (s + 1 * ?pd)" using assms(3) by simp
    show ?thesis
      unfolding ahead_of_def Let_def n
      using sq ahead_geometry [OF assms(2) sq] by simp
  next
    case two
    have sq: "is_square (s + 2 * ?pd)"
      using double_push_in_range [OF assms(2) two(2)] by (simp add: algebra_simps)
    have n: "int n = s + 2 * ?pd" using two(1) sq by (simp add: is_square_def)
    show ?thesis
      unfolding ahead_of_def Let_def n
      using sq ahead_geometry [OF assms(2) sq] by simp
  next
    case cap
    have n: "int n = s + ?pd + d" using cap(3,4) by (simp add: is_square_def)
    show ?thesis
      unfolding ahead_of_def Let_def n
      using cap(1,4) diagonal_geometry [OF assms(2) cap(4,1,2)]
      by (auto simp: left_def right_def)
  qed
qed

text \<open>
  Claim C5.  On column 0 the left capture, and on column 7 the right capture, return the
  moves unchanged, whatever the occupancy and the en-passant target.  For every
  admissible source mask, every square set in the result of \<^verbatim>\<open>get_pawn_moves\<close> is
  ahead of a selected pawn: on its column, or one row ahead on an adjacent column.  So
  a lone pawn on column 0 reaches columns 0 and 1 only, and a lone pawn on column 7
  columns 6 and 7 only: no destination wraps onto the opposite file.
\<close>

theorem pawn_capture_no_wrap:
  "add_capture g vacant s pawn_dir 0 left moves = Some moves
   \<and> add_capture g vacant s pawn_dir 7 right moves = Some moves
   \<and> (pawns_can_advance c b \<longrightarrow>
        (\<exists>m. get_pawn_moves g b c = Some m \<and>
           (\<forall>n. bit m n \<longrightarrow> (\<exists>s'\<in>set squares. bit b (nat s') \<and> ahead_of c s' (int n)))))
   \<and> (is_square s \<and> is_square (s + get_pawn_direction c) \<longrightarrow>
        (\<exists>m. get_pawn_moves g (push_bit (nat s) 1) c = Some m \<and>
           (\<forall>n. bit m n \<longrightarrow>
              (get_col s = 0 \<longrightarrow> get_col (int n) = 0 \<or> get_col (int n) = 1) \<and>
              (get_col s = 7 \<longrightarrow> get_col (int n) = 6 \<or> get_col (int n) = 7))))"
proof -
  have l: "add_capture g vacant s pawn_dir 0 left moves = Some moves"
    by (simp add: add_capture_def)
  have r: "add_capture g vacant s pawn_dir 7 right moves = Some moves"
    by (simp add: add_capture_def left_def right_def)
  have all: "\<exists>m. get_pawn_moves g b c = Some m \<and>
      (\<forall>n. bit m n \<longrightarrow> (\<exists>s'\<in>set squares. bit b (nat s') \<and> ahead_of c s' (int n)))"
    if adv: "pawns_can_advance c b"
  proof -
    from pawn_moves_bits [OF adv, of g] obtain m
      where m: "get_pawn_moves g b c = Some m"
        and bm: "\<And>n. bit m n \<longleftrightarrow> (\<exists>s\<in>set squares. bit b (nat s) \<and> pawn_target g c s n)"
      by blast
    have "\<exists>s'\<in>set squares. bit b (nat s') \<and> ahead_of c s' (int n)" if "bit m n" for n
    proof -
      from that obtain s' where s': "s' \<in> set squares" "bit b (nat s')" "pawn_target g c s' n"
        unfolding bm by blast
      from s'(1) have sq: "is_square s'" by (simp add: squares_iff)
      from adv s'(1,2) have "is_square (s' + get_pawn_direction c)"
        unfolding pawns_can_advance_def by blast
      with s'(3) sq have "ahead_of c s' (int n)" by (rule pawn_target_ahead)
      with s'(1,2) show ?thesis by blast
    qed
    with m show ?thesis by blast
  qed
  have lone: "\<exists>m. get_pawn_moves g (push_bit (nat s) 1) c = Some m \<and>
      (\<forall>n. bit m n \<longrightarrow>
         (get_col s = 0 \<longrightarrow> get_col (int n) = 0 \<or> get_col (int n) = 1) \<and>
         (get_col s = 7 \<longrightarrow> get_col (int n) = 6 \<or> get_col (int n) = 7))"
    if sq: "is_square s \<and> is_square (s + get_pawn_direction c)"
  proof -
    from sq have s: "is_square s" and t: "is_square (s + get_pawn_direction c)" by simp_all
    from pawn_single_bits [OF s t, of g] obtain m
      where m: "get_pawn_moves g (push_bit (nat s) 1) c = Some m"
        and bm: "\<And>n. bit m n \<longleftrightarrow> pawn_target g c s n"
      by blast
    have "(get_col s = 0 \<longrightarrow> get_col (int n) = 0 \<or> get_col (int n) = 1) \<and>
         (get_col s = 7 \<longrightarrow> get_col (int n) = 6 \<or> get_col (int n) = 7)" if "bit m n" for n
    proof -
      from that have "pawn_target g c s n" by (simp add: bm)
      then have a: "ahead_of c s (int n)" using s t by (rule pawn_target_ahead)
      then have "is_square (int n)" by (simp add: ahead_of_def Let_def)
      then have "0 \<le> get_col (int n)" "get_col (int n) < 8"
        by (simp_all add: square_row_col)
      with a show ?thesis by (auto simp: ahead_of_def Let_def)
    qed
    with m show ?thesis by blast
  qed
  from l r all lone show ?thesis by blast
qed

theorem pawn_capture_no_wrap_witness:
  "\<exists>m. get_pawn_moves \<lparr>board = \<lparr>white = 0, black = - 1\<rparr>, en_passant = Some 23\<rparr>
       (push_bit 32 1) White = Some m \<and>
     test_bit m 25 = Some True \<and> test_bit m 23 = Some False \<and>
     (\<forall>n. bit m n \<longrightarrow> get_col (int n) = 0 \<or> get_col (int n) = 1)"
proof -
  let ?g = "\<lparr>board = \<lparr>white = 0, black = - 1\<rparr>, en_passant = Some 23\<rparr>"
  have s: "is_square 32 \<and> is_square (32 + get_pawn_direction White)"
    by (simp add: is_square_def get_pawn_direction_def up_def)
  have c: "get_col 32 = 0" by (simp add: get_col_def)
  from pawn_capture_no_wrap [of ?g _ 32 _ _ White] s
  obtain m where m: "get_pawn_moves ?g (push_bit (nat 32) 1) White = Some m"
    and n: "\<And>n. bit m n \<Longrightarrow> get_col 32 = 0 \<longrightarrow> get_col (int n) = 0 \<or> get_col (int n) = 1"
    by blast
  have e: "get_pawn_moves ?g (push_bit 32 1) White = Some (push_bit 25 1)" by code_simp
  with m have "m = push_bit 25 1" by simp
  then have "test_bit m 25 = Some True" "test_bit m 23 = Some False"
    by (simp_all add: test_bit_def is_square_def)
  with m n c show ?thesis by simp
qed

subsection \<open>Sliding walks\<close>

lemma ex_nat_first: "(\<exists>k::nat. P k) \<longleftrightarrow> P 0 \<or> (\<exists>k. P (Suc k))"
  by (metis not0_implies_Suc)

lemma reach_off_board:
  assumes "\<not> (is_valid_dimension i \<and> is_valid_dimension j)"
  shows "\<not> reach occupied dr dc i j k"
  using assms by (cases k) auto

lemma steps_left_decreases:
  assumes "dr \<noteq> 0 \<or> dc \<noteq> 0" and "is_valid_dimension i" and "is_valid_dimension j"
  shows "steps_left dr dc (i + dr) (j + dc) < steps_left dr dc i j"
  using assms by (auto simp: steps_left_def is_valid_dimension_def)

lemma slide_bits:
  assumes "dr \<noteq> 0 \<or> dc \<noteq> 0"
  shows "\<exists>m'. slide occupied dr dc i j m = Some m' \<and>
           (\<forall>n. bit m' n \<longleftrightarrow> bit m n \<or>
              (\<exists>k. reach occupied dr dc i j k \<and>
                   n = nat (8 * (i + int k * dr) + (j + int k * dc))))"
proof (induction "steps_left dr dc i j" arbitrary: i j m rule: less_induct)
  case less
  show ?case
  proof (cases "is_valid_dimension i \<and> is_valid_dimension j")
    case False
    then have "slide occupied dr dc i j m = Some m"
      by (subst slide.simps) auto
    moreover have "\<not> reach occupied dr dc i j k" for k
      using False by (rule reach_off_board)
    ultimately show ?thesis by simp
  next
    case True
    then have sq: "is_square (8 * i + j)" by (simp add: square_of_valid)
    show ?thesis
    proof (cases "bit occupied (nat (8 * i + j))")
      case occ: True
      have "slide occupied dr dc i j m = Some (with_bit m (8 * i + j))"
        using True sq occ by (subst slide.simps) (simp add: set_bit_with_bit test_bit_square)
      moreover have "(\<exists>k. reach occupied dr dc i j k \<and>
          n = nat (8 * (i + int k * dr) + (j + int k * dc))) \<longleftrightarrow> n = nat (8 * i + j)" for n
        unfolding ex_nat_first [of "\<lambda>k. reach occupied dr dc i j k \<and> _ k"]
        using True occ by simp
      ultimately show ?thesis using sq by (simp add: bit_with_bit)
    next
      case vac: False
      have step: "slide occupied dr dc i j m
          = slide occupied dr dc (i + dr) (j + dc) (with_bit m (8 * i + j))"
        using True sq vac by (subst slide.simps) (simp add: set_bit_with_bit test_bit_square)
      have "steps_left dr dc (i + dr) (j + dc) < steps_left dr dc i j"
        using assms True by (intro steps_left_decreases) simp_all
      from less [OF this, of "with_bit m (8 * i + j)"] obtain m'
        where m': "slide occupied dr dc (i + dr) (j + dc) (with_bit m (8 * i + j)) = Some m'"
          and bm': "\<And>n. bit m' n \<longleftrightarrow> bit (with_bit m (8 * i + j)) n \<or>
              (\<exists>k. reach occupied dr dc (i + dr) (j + dc) k \<and>
                   n = nat (8 * (i + dr + int k * dr) + (j + dc + int k * dc)))"
        by blast
      have idx: "8 * (i + int (Suc k) * dr) + (j + int (Suc k) * dc)
          = 8 * (i + dr + int k * dr) + (j + dc + int k * dc)" for k
        by (simp add: algebra_simps)
      have "(\<exists>k. reach occupied dr dc i j k \<and>
            n = nat (8 * (i + int k * dr) + (j + int k * dc)))
          \<longleftrightarrow> n = nat (8 * i + j) \<or>
            (\<exists>k. reach occupied dr dc (i + dr) (j + dc) k \<and>
                 n = nat (8 * (i + dr + int k * dr) + (j + dc + int k * dc)))" for n
        unfolding ex_nat_first [of "\<lambda>k. reach occupied dr dc i j k \<and> _ k"] idx
        using True vac by simp
      then have "bit m' n \<longleftrightarrow> bit m n \<or>
          (\<exists>k. reach occupied dr dc i j k \<and>
               n = nat (8 * (i + int k * dr) + (j + int k * dc)))" for n
        unfolding bm' using sq by (simp add: bit_with_bit disj_assoc)
      with step m' show ?thesis by simp
    qed
  qed
qed

lemma slide_step_bits:
  assumes "s \<in> set squares" and "\<And>dr dc. (dr, dc) \<in> set dirs \<Longrightarrow> dr \<noteq> 0 \<or> dc \<noteq> 0"
  shows "\<exists>m'. slide_step occupied dirs b s m = Some m' \<and>
           (\<forall>n. bit m' n \<longleftrightarrow> bit m n \<or> (bit b (nat s) \<and> slide_target occupied dirs s n))"
proof (cases "bit b (nat s)")
  case False
  then show ?thesis using assms(1) by (simp add: slide_step_def squares_iff test_bit_square)
next
  case True
  let ?f = "\<lambda>(dr, dc). slide occupied dr dc (get_row s + dr) (get_col s + dc)"
  let ?C = "\<lambda>(dr, dc) n. \<exists>k. reach occupied dr dc (get_row s + dr) (get_col s + dc) k \<and>
      n = nat (8 * (get_row s + dr + int k * dr) + (get_col s + dc + int k * dc))"
  have "\<exists>m'. ?f d m = Some m' \<and> (\<forall>n. bit m' n \<longleftrightarrow> bit m n \<or> ?C d n)"
    if "d \<in> set dirs" for d m
  proof -
    obtain dr dc where d: "d = (dr, dc)" by (cases d)
    with that assms(2) have "dr \<noteq> 0 \<or> dc \<noteq> 0" by simp
    from slide_bits [OF this, of occupied "get_row s + dr" "get_col s + dc" m]
    show ?thesis unfolding d by simp
  qed
  from for_each_bits [of dirs ?f ?C m, OF this] obtain m'
    where m': "for_each dirs ?f m = Some m'"
      and bm': "\<And>n. bit m' n \<longleftrightarrow> bit m n \<or> (\<exists>d\<in>set dirs. ?C d n)"
    by blast
  have "slide_step occupied dirs b s m = Some m'"
    using True assms(1) m' by (simp add: slide_step_def squares_iff test_bit_square)
  moreover have "bit m' n \<longleftrightarrow> bit m n \<or> (bit b (nat s) \<and> slide_target occupied dirs s n)" for n
    unfolding bm' slide_target_def using True by (simp add: case_prod_unfold)
  ultimately show ?thesis by blast
qed

lemma sliding_bits:
  assumes "\<And>dr dc. (dr, dc) \<in> set dirs \<Longrightarrow> dr \<noteq> 0 \<or> dc \<noteq> 0"
  shows "\<exists>m. for_each squares (slide_step occupied dirs b) 0 = Some m \<and>
           (\<forall>n. bit m n \<longleftrightarrow> (\<exists>s\<in>set squares. bit b (nat s) \<and> slide_target occupied dirs s n))"
proof -
  have "\<exists>m'. slide_step occupied dirs b s m = Some m' \<and>
           (\<forall>n. bit m' n \<longleftrightarrow> bit m n \<or> (bit b (nat s) \<and> slide_target occupied dirs s n))"
    if "s \<in> set squares" for s m
    using that assms by (rule slide_step_bits)
  from for_each_bits [of squares "slide_step occupied dirs b"
      "\<lambda>s n. bit b (nat s) \<and> slide_target occupied dirs s n" 0, OF this]
  show ?thesis by simp
qed

lemma bishop_bits:
  "\<exists>m. get_bishop_moves g b = Some m \<and>
     (\<forall>n. bit m n \<longleftrightarrow> (\<exists>s\<in>set squares. bit b (nat s) \<and>
        slide_target (black (board g) OR white (board g)) bishop_dirs s n))"
  unfolding get_bishop_moves_def Let_def by (rule sliding_bits) (auto simp: bishop_dirs_def)

lemma rook_bits:
  "\<exists>m. get_rook_moves g b = Some m \<and>
     (\<forall>n. bit m n \<longleftrightarrow> (\<exists>s\<in>set squares. bit b (nat s) \<and>
        slide_target (black (board g) OR white (board g)) rook_dirs s n))"
  unfolding get_rook_moves_def Let_def by (rule sliding_bits) (auto simp: rook_dirs_def)

text \<open>
  Claim C7.  For every game and every source mask \<^verbatim>\<open>get_bishop_moves\<close> and
  \<^verbatim>\<open>get_rook_moves\<close> return bitboards, and \<^verbatim>\<open>get_queen_moves\<close> returns their
  bitwise OR.
\<close>

theorem queen_is_bishop_or_rook:
  "\<exists>bm rm. get_bishop_moves g b = Some bm \<and> get_rook_moves g b = Some rm \<and>
     get_queen_moves g b = Some (bm OR rm)"
proof -
  from bishop_bits [of g b] obtain bm where "get_bishop_moves g b = Some bm" by blast
  moreover from rook_bits [of g b] obtain rm where "get_rook_moves g b = Some rm" by blast
  ultimately show ?thesis by (simp add: get_queen_moves_def)
qed

text \<open>Claim C7 at a concrete board: the three results for the piece on square 36.\<close>

theorem queen_is_bishop_or_rook_witness:
  "get_queen_moves \<lparr>board = \<lparr>white = push_bit 36 1, black = push_bit 38 1 OR push_bit 54 1\<rparr>,
      en_passant = None\<rparr> (push_bit 36 1)
   = Some (the (get_bishop_moves \<lparr>board = \<lparr>white = push_bit 36 1,
        black = push_bit 38 1 OR push_bit 54 1\<rparr>, en_passant = None\<rparr> (push_bit 36 1))
      OR the (get_rook_moves \<lparr>board = \<lparr>white = push_bit 36 1,
        black = push_bit 38 1 OR push_bit 54 1\<rparr>, en_passant = None\<rparr> (push_bit 36 1)))"
  using queen_is_bishop_or_rook
    [of "\<lparr>board = \<lparr>white = push_bit 36 1, black = push_bit 38 1 OR push_bit 54 1\<rparr>,
      en_passant = None\<rparr>" "push_bit 36 1"]
  by auto

subsection \<open>Blockers\<close>















subsection \<open>Union over the source mask\<close>

lemma knight_union:
  "(\<exists>x y. get_knight_moves g a = Some x \<and> get_knight_moves g b = Some y \<and>
      get_knight_moves g (a OR b) = Some (x OR y)) \<and> get_knight_moves g 0 = Some 0"
proof -
  from knight_bits [of g] obtain T :: "bitboard list" where
    "\<And>b. \<exists>m. get_knight_moves g b = Some m \<and>
      (\<forall>n. bit m n \<longleftrightarrow> (\<exists>s\<in>set squares. bit b (nat s) \<and> bit (T ! nat s) n))"
    by blast
  then show ?thesis by (rule homomorphism_from_bits)
qed

lemma king_union:
  "(\<exists>x y. get_king_moves g a = Some x \<and> get_king_moves g b = Some y \<and>
      get_king_moves g (a OR b) = Some (x OR y)) \<and> get_king_moves g 0 = Some 0"
proof -
  from king_bits [of g] obtain T :: "bitboard list" where
    "\<And>b. \<exists>m. get_king_moves g b = Some m \<and>
      (\<forall>n. bit m n \<longleftrightarrow> (\<exists>s\<in>set squares. bit b (nat s) \<and> bit (T ! nat s) n))"
    by blast
  then show ?thesis by (rule homomorphism_from_bits)
qed

lemma pawn_attacks_union:
  "(\<exists>x y. get_pawn_attacks g a c = Some x \<and> get_pawn_attacks g b c = Some y \<and>
      get_pawn_attacks g (a OR b) c = Some (x OR y)) \<and> get_pawn_attacks g 0 c = Some 0"
proof -
  obtain T where T: "make_jump_table [left, right] = Some T"
    using make_jump_table_Some by blast
  show ?thesis
  proof (cases c)
    case White
    show ?thesis unfolding White
      by (rule homomorphism_from_bits
          [of "\<lambda>b. get_pawn_attacks g b White" "\<lambda>s n. s < 56 \<and> bit (T ! nat (s + 8)) n"])
        (rule pawn_attacks_bits(1) [OF T])
  next
    case Black
    show ?thesis unfolding Black
      by (rule homomorphism_from_bits
          [of "\<lambda>b. get_pawn_attacks g b Black" "\<lambda>s n. 8 \<le> s \<and> bit (T ! nat (s - 8)) n"])
        (rule pawn_attacks_bits(2) [OF T])
  qed
qed

lemma bishop_union:
  "(\<exists>x y. get_bishop_moves g a = Some x \<and> get_bishop_moves g b = Some y \<and>
      get_bishop_moves g (a OR b) = Some (x OR y)) \<and> get_bishop_moves g 0 = Some 0"
  by (rule homomorphism_from_bits) (rule bishop_bits)

lemma rook_union:
  "(\<exists>x y. get_rook_moves g a = Some x \<and> get_rook_moves g b = Some y \<and>
      get_rook_moves g (a OR b) = Some (x OR y)) \<and> get_rook_moves g 0 = Some 0"
  by (rule homomorphism_from_bits) (rule rook_bits)

lemma queen_union:
  "(\<exists>x y. get_queen_moves g a = Some x \<and> get_queen_moves g b = Some y \<and>
      get_queen_moves g (a OR b) = Some (x OR y)) \<and> get_queen_moves g 0 = Some 0"
proof -
  from bishop_union [of g a b] obtain bx "by" where
    bi: "get_bishop_moves g a = Some bx" "get_bishop_moves g b = Some by"
      "get_bishop_moves g (a OR b) = Some (bx OR by)" "get_bishop_moves g 0 = Some 0"
    by blast
  from rook_union [of g a b] obtain rx ry where
    ro: "get_rook_moves g a = Some rx" "get_rook_moves g b = Some ry"
      "get_rook_moves g (a OR b) = Some (rx OR ry)" "get_rook_moves g 0 = Some 0"
    by blast
  have "(bx OR by) OR (rx OR ry) = (bx OR rx) OR (by OR ry)" by (simp add: ac_simps)
  with bi ro show ?thesis by (simp add: get_queen_moves_def)
qed

text \<open>
  Claim C8.  Each of the seven generators maps the union of two source masks to the
  union of the two results, and the empty mask to the empty bitboard.  The six
  generators other than \<^verbatim>\<open>get_pawn_moves\<close> return a bitboard for every mask.
  \<^verbatim>\<open>get_pawn_moves\<close> returns one exactly for the admissible masks; for it the equation
  is between the results as such: the result for \<open>a OR b\<close> is defined iff the results
  for \<open>a\<close> and for \<open>b\<close> both are, and is then their union.
\<close>

theorem generators_union_homomorphism:
  "get_pawn_moves g (a OR b) c =
     do { x \<leftarrow> get_pawn_moves g a c; y \<leftarrow> get_pawn_moves g b c; Some (x OR y) }
   \<and> (pawns_can_advance c a \<and> pawns_can_advance c b \<longrightarrow>
        (\<exists>x y. get_pawn_moves g a c = Some x \<and> get_pawn_moves g b c = Some y \<and>
           get_pawn_moves g (a OR b) c = Some (x OR y)))
   \<and> get_pawn_moves g 0 c = Some 0
   \<and> (\<exists>x y. get_pawn_attacks g a c = Some x \<and> get_pawn_attacks g b c = Some y \<and>
        get_pawn_attacks g (a OR b) c = Some (x OR y))
   \<and> get_pawn_attacks g 0 c = Some 0
   \<and> (\<exists>x y. get_knight_moves g a = Some x \<and> get_knight_moves g b = Some y \<and>
        get_knight_moves g (a OR b) = Some (x OR y))
   \<and> get_knight_moves g 0 = Some 0
   \<and> (\<exists>x y. get_king_moves g a = Some x \<and> get_king_moves g b = Some y \<and>
        get_king_moves g (a OR b) = Some (x OR y))
   \<and> get_king_moves g 0 = Some 0
   \<and> (\<exists>x y. get_bishop_moves g a = Some x \<and> get_bishop_moves g b = Some y \<and>
        get_bishop_moves g (a OR b) = Some (x OR y))
   \<and> get_bishop_moves g 0 = Some 0
   \<and> (\<exists>x y. get_rook_moves g a = Some x \<and> get_rook_moves g b = Some y \<and>
        get_rook_moves g (a OR b) = Some (x OR y))
   \<and> get_rook_moves g 0 = Some 0
   \<and> (\<exists>x y. get_queen_moves g a = Some x \<and> get_queen_moves g b = Some y \<and>
        get_queen_moves g (a OR b) = Some (x OR y))
   \<and> get_queen_moves g 0 = Some 0"
proof -
  have "\<exists>x y. get_pawn_moves g a c = Some x \<and> get_pawn_moves g b c = Some y \<and>
      get_pawn_moves g (a OR b) c = Some (x OR y)"
    if "pawns_can_advance c a \<and> pawns_can_advance c b"
  proof -
    from that pawn_moves_bits [of c a g] pawn_moves_bits [of c b g]
    obtain x y where "get_pawn_moves g a c = Some x" "get_pawn_moves g b c = Some y" by blast
    then show ?thesis using pawn_moves_union [of g a b c] by simp
  qed
  then show ?thesis
    using pawn_moves_union [of g a b c] pawn_moves_empty [of g c] pawn_attacks_union [of g a c b]
      knight_union [of g a b] king_union [of g a b] bishop_union [of g a b] rook_union [of g a b]
      queen_union [of g a b]
    by blast
qed

theorem generators_union_homomorphism_witness:
  "get_pawn_moves \<lparr>board = \<lparr>white = push_bit 52 1 OR push_bit 36 1, black = 0\<rparr>,
       en_passant = None\<rparr> (push_bit 52 1 OR push_bit 36 1) White
     = Some (push_bit 44 1 OR push_bit 28 1)"
proof -
  let ?g = "\<lparr>board = \<lparr>white = push_bit 52 1 OR push_bit 36 1, black = 0\<rparr>, en_passant = None\<rparr>"
  have "get_pawn_moves ?g (push_bit 52 1) White = Some (push_bit 44 1)"
    "get_pawn_moves ?g (push_bit 36 1) White = Some (push_bit 28 1)"
    by code_simp+
  with generators_union_homomorphism [of ?g "push_bit 52 1" "push_bit 36 1" White]
  show ?thesis by simp
qed

end
